theory Spec2Isabelle
  imports Main
begin

section \<open>The component tree and the node overlay\<close>

text \<open>
  Python exceptions are values of \<open>error\<close>; a function that may raise returns
  \<open>error + 'a\<close>, with \<open>Inl\<close> the exception.
\<close>

datatype error =
  ValueError | IndexError | LookupError | TypeError | AssertionError
  | AttributeError | NotImplementedError | RuntimeError

text \<open>
  The component classes (module \<open>component\<close>) are not part of \<open>node.py\<close>; the overlay
  reads the attributes below from them. \<open>KRoot\<close> is the component wrapped by \<open>RootNode\<close>.
\<close>

datatype comp_kind = KField | KReg | KRegfile | KAddrmap | KMem | KSignal | KRoot

text \<open>
  A Python \<open>str\<close> is a sequence of Unicode code points; \<open>ascii\<close> reads a literal.
\<close>

type_synonym ustring = "nat list"

definition ascii :: "string \<Rightarrow> ustring" where
  "ascii s = map of_char s"

datatype rdl_value =
  NoneV | BoolV bool | IntV int | StrV string
  | ComponentRef string | PropertyReference string

datatype component = Component
  (kind: comp_kind)
  (inst_name: ustring)
  (comp_children: "component list")
  (properties: "(string \<times> rdl_value) list")
  (addr_offset: int)
  (comp_is_array: bool)
  (comp_array_dimensions: "int list option")
  (comp_array_stride: "int option")

text \<open>\<open>isinstance(inst, comp.AddressableComponent)\<close>\<close>

definition addressable :: "comp_kind \<Rightarrow> bool" where
  "addressable k = (k = KReg \<or> k = KRegfile \<or> k = KAddrmap \<or> k = KMem)"

text \<open>
  A node holds its component, its parent overlay and, for addressable nodes, the
  current index (\<open>None\<close>: unknown). The class of a node is the one \<open>_factory\<close> picks
  for the kind of its component; \<open>RootNode\<close> is the class of a node over \<open>KRoot\<close>.
\<close>

datatype node = Node (inst: component) (parent: "node option") (current_idx: "int list option")

definition factory :: "component \<Rightarrow> node option \<Rightarrow> error + node" where
  "factory i p =
     (if kind i = KField \<or> kind i = KReg \<or> kind i = KRegfile \<or> kind i = KAddrmap
         \<or> kind i = KMem \<or> kind i = KSignal
      then Inr (Node i p None)
      else Inl RuntimeError)"

definition is_AddressableNode :: "node \<Rightarrow> bool" where
  "is_AddressableNode n = addressable (kind (inst n))"

definition is_RootNode :: "node \<Rightarrow> bool" where
  "is_RootNode n = (kind (inst n) = KRoot)"

definition is_AddrmapNode :: "node \<Rightarrow> bool" where
  "is_AddrmapNode n = (kind (inst n) = KAddrmap)"

definition is_array :: "node \<Rightarrow> bool" where
  "is_array n = comp_is_array (inst n)"

definition array_dimensions :: "node \<Rightarrow> int list option" where
  "array_dimensions n = comp_array_dimensions (inst n)"

definition array_stride :: "node \<Rightarrow> int option" where
  "array_stride n = comp_array_stride (inst n)"

section \<open>Addresses\<close>

text \<open>The properties of \<open>AddressableNode\<close> do not exist on the other classes.\<close>

definition raw_address_offset :: "node \<Rightarrow> error + int" where
  "raw_address_offset n =
     (if is_AddressableNode n then Inr (addr_offset (inst n)) else Inl AttributeError)"

text \<open>
  The two nested loops of \<open>address_offset\<close>: the inner one multiplies the dimensions
  after position \<open>i\<close>, the outer one adds \<open>sz * current_idx[i]\<close>.
\<close>

definition flat_sz :: "int list \<Rightarrow> nat \<Rightarrow> int" where
  "flat_sz dims i = fold (\<lambda>j sz. sz * dims ! j) [i + 1..<length dims] 1"

definition flat_idx :: "int list \<Rightarrow> int list \<Rightarrow> int" where
  "flat_idx cur dims = fold (\<lambda>i idx. idx + flat_sz dims i * cur ! i) [0..<length cur] 0"

definition address_offset :: "node \<Rightarrow> error + int" where
  "address_offset n =
     (if \<not> is_AddressableNode n then Inl AttributeError
      else if is_array n then
        (case current_idx n of
           None \<Rightarrow> Inl ValueError
         | Some cur \<Rightarrow>
             (case (if cur = [] then Inr 0
                    else case array_dimensions n of
                           None \<Rightarrow> Inl TypeError
                         | Some dims \<Rightarrow> Inr (flat_idx cur dims)) of
                Inl e \<Rightarrow> Inl e
              | Inr idx \<Rightarrow>
                  (case array_stride n of
                     None \<Rightarrow> Inl TypeError
                   | Some st \<Rightarrow> Inr (addr_offset (inst n) + idx * st))))
      else Inr (addr_offset (inst n)))"

fun absolute_address :: "node \<Rightarrow> error + int" where
  "absolute_address (Node i p ci) =
     (if \<not> addressable (kind i) then Inl AttributeError
      else case p of
        None \<Rightarrow> address_offset (Node i p ci)
      | Some pn \<Rightarrow>
          if kind (inst pn) \<noteq> KRoot then
            (if \<not> addressable (kind (inst pn)) then Inl AssertionError
             else case absolute_address pn of
                    Inl e \<Rightarrow> Inl e
                  | Inr a \<Rightarrow>
                      (case address_offset (Node i p ci) of
                         Inl e \<Rightarrow> Inl e
                       | Inr b \<Rightarrow> Inr (a + b)))
          else address_offset (Node i p ci))"

text \<open>The node and its ancestors below the root node, innermost first.\<close>

fun lineage :: "node \<Rightarrow> node list" where
  "lineage (Node i p ci) =
     (case p of
        None \<Rightarrow> [Node i p ci]
      | Some pn \<Rightarrow> if kind (inst pn) \<noteq> KRoot then Node i p ci # lineage pn else [Node i p ci])"

definition array_ok :: "node \<Rightarrow> bool" where
  "array_ok n = (is_array n \<longrightarrow> array_dimensions n \<noteq> None \<and> array_stride n \<noteq> None)"

definition idx_known :: "node \<Rightarrow> bool" where
  "idx_known n = (is_array n \<longrightarrow> current_idx n \<noteq> None)"

section \<open>Owning address map\<close>

fun owning_addrmap :: "node \<Rightarrow> error + node option" where
  "owning_addrmap (Node i p ci) =
     (if kind i = KAddrmap then Inr (Some (Node i p ci))
      else if kind i = KRoot then Inr None
      else case p of
             None \<Rightarrow> Inl AssertionError
           | Some pn \<Rightarrow> owning_addrmap pn)"

fun reaches_root :: "node \<Rightarrow> bool" where
  "reaches_root (Node i p ci) =
     (kind i = KRoot \<or> (case p of None \<Rightarrow> False | Some pn \<Rightarrow> reaches_root pn))"

section \<open>Properties\<close>

text \<open>
  The environment of a node: the property rulebook and the configuration, together
  with the routines of modules that \<open>node.py\<close> imports (\<open>rdltypes\<close>, \<open>helpers\<close>), taken as
  parameters. \<open>get_default\<close> of a rule may itself read properties of the node.
\<close>

record rule =
  bindable_to :: "comp_kind list"
  get_default :: "node \<Rightarrow> error + rdl_value"

record env =
  lookup_property :: "string \<Rightarrow> rule option"
  dedent_desc :: bool
  dedent_text :: "rdl_value \<Rightarrow> rdl_value"
  build_node_ref :: "rdl_value \<Rightarrow> node \<Rightarrow> rdl_value"
  resolve_node :: "rdl_value \<Rightarrow> node \<Rightarrow> rdl_value"
  roundup_pow2 :: "int \<Rightarrow> int"

text \<open>
  \<open>kwargs\<close> are the keyword arguments of the call; \<open>default\<close> is popped and whatever is
  left raises \<open>TypeError\<close>.
\<close>

definition get_property ::
  "env \<Rightarrow> node \<Rightarrow> string \<Rightarrow> (string \<times> rdl_value) list \<Rightarrow> error + rdl_value" where
  "get_property e n prop_name kwargs =
     (let ovr_default = (map_of kwargs ''default'' \<noteq> None);
          dflt = (case map_of kwargs ''default'' of None \<Rightarrow> NoneV | Some d \<Rightarrow> d);
          kwargs' = filter (\<lambda>kv. fst kv \<noteq> ''default'') kwargs
      in if kwargs' \<noteq> [] then Inl TypeError
         else case map_of (properties (inst n)) prop_name of
           Some prop_value \<Rightarrow>
             (case prop_value of
                ComponentRef r \<Rightarrow> Inr (build_node_ref e prop_value n)
              | PropertyReference r \<Rightarrow> Inr (resolve_node e prop_value n)
              | _ \<Rightarrow>
                  if prop_name = ''desc'' \<and> dedent_desc e then Inr (dedent_text e prop_value)
                  else Inr prop_value)
         | None \<Rightarrow>
             if ovr_default then Inr dflt
             else (case lookup_property e prop_name of
                     None \<Rightarrow> Inl LookupError
                   | Some r \<Rightarrow>
                       if kind (inst n) \<notin> set (bindable_to r) then Inl LookupError
                       else get_default r n))"

section \<open>Sizes\<close>

text \<open>
  \<open>regwidth\<close>, \<open>memwidth\<close> and \<open>mementries\<close> are integers in the rulebook; arithmetic on
  a value that is not a number is \<open>TypeError\<close>.
\<close>

definition as_int :: "rdl_value \<Rightarrow> error + int" where
  "as_int v =
     (case v of IntV i \<Rightarrow> Inr i | BoolV b \<Rightarrow> Inr (if b then 1 else 0) | _ \<Rightarrow> Inl TypeError)"

text \<open>
  Modelled from the spec: \<open>n_elements\<close> of \<open>AddressableComponent\<close> (module \<open>component\<close>) is
  missing; the element count of an array is the number of its elements, the product of
  its dimensions, and one for a component that is not an array.
\<close>

definition n_elements :: "component \<Rightarrow> error + int" where
  "n_elements c =
     (if comp_is_array c then
        (case comp_array_dimensions c of
           None \<Rightarrow> Inl TypeError
         | Some dims \<Rightarrow> Inr (prod_list dims))
      else Inr 1)"

lemma size_last_less: "cs \<noteq> [] \<Longrightarrow> size (last cs) < Suc (size_list size cs)"
  by (induction cs) auto

text \<open>
  \<open>size\<close> is overridden per class (\<open>RegNode\<close>, \<open>RegfileNode\<close>, \<open>AddrmapNode\<close>, \<open>MemNode\<close>);
  the group nodes share \<open>get_group_node_size\<close>, which recurses into the last child.
\<close>

function node_size :: "env \<Rightarrow> node \<Rightarrow> error + int"
  and total_size :: "env \<Rightarrow> node \<Rightarrow> error + int"
  and get_group_node_size :: "env \<Rightarrow> node \<Rightarrow> error + int"
where
  "node_size e n =
     (case kind (inst n) of
        KReg \<Rightarrow>
          (case get_property e n ''regwidth'' [] of
             Inl x \<Rightarrow> Inl x
           | Inr v \<Rightarrow> (case as_int v of Inl x \<Rightarrow> Inl x | Inr w \<Rightarrow> Inr (w div 8)))
      | KRegfile \<Rightarrow> get_group_node_size e n
      | KAddrmap \<Rightarrow> get_group_node_size e n
      | KMem \<Rightarrow>
          (case get_property e n ''memwidth'' [] of
             Inl x \<Rightarrow> Inl x
           | Inr v \<Rightarrow>
               (case as_int v of
                  Inl x \<Rightarrow> Inl x
                | Inr w \<Rightarrow>
                    (let memwidth = max w 8; entry_size = roundup_pow2 e memwidth div 8
                     in case get_property e n ''mementries'' [] of
                          Inl x \<Rightarrow> Inl x
                        | Inr v' \<Rightarrow>
                            (case as_int v' of
                               Inl x \<Rightarrow> Inl x
                             | Inr num_entries \<Rightarrow> Inr (entry_size * num_entries)))))
      | _ \<Rightarrow> Inl AttributeError)"
| "total_size e n =
     (if \<not> is_AddressableNode n then Inl AttributeError
      else if is_array n then
        (case n_elements (inst n) of
           Inl x \<Rightarrow> Inl x
         | Inr k \<Rightarrow> (case array_stride n of None \<Rightarrow> Inl TypeError | Some st \<Rightarrow> Inr (st * k)))
      else node_size e n)"
| "get_group_node_size e n =
     (if comp_children (inst n) = [] \<or> \<not> addressable (kind (last (comp_children (inst n))))
      then Inr 0
      else case factory (last (comp_children (inst n))) (Some n) of
             Inl x \<Rightarrow> Inl x
           | Inr last_child_node \<Rightarrow>
               (case raw_address_offset last_child_node of
                  Inl x \<Rightarrow> Inl x
                | Inr off \<Rightarrow>
                    (case total_size e last_child_node of
                       Inl x \<Rightarrow> Inl x
                     | Inr ts \<Rightarrow> Inr (off + ts))))"
  by pat_completeness auto
termination
proof (relation "measure (\<lambda>x. case x of
          Inl (e, n) \<Rightarrow> 3 * size (inst n) + 1
        | Inr (Inl (e, n)) \<Rightarrow> 3 * size (inst n) + 2
        | Inr (Inr (e, n)) \<Rightarrow> 3 * size (inst n))", goal_cases)
  case 1
  show ?case by simp
next
  case (2 e n)
  show ?case by simp
next
  case (3 e n)
  show ?case by simp
next
  case (4 e n)
  show ?case by simp
next
  case (5 e n lc)
  then have "inst lc = last (comp_children (inst n))"
    by (auto simp: factory_def split: if_splits)
  moreover from 5 have "size (last (comp_children (inst n))) < size (inst n)"
    by (cases "inst n") (auto dest: size_last_less)
  ultimately show ?case by simp
qed

declare node_size.simps [simp del] total_size.simps [simp del] get_group_node_size.simps [simp del]

section \<open>Children\<close>

text \<open>Truth value of a property value, as \<open>not\<close> reads it.\<close>

definition truthy :: "rdl_value \<Rightarrow> bool" where
  "truthy v =
     (case v of
        NoneV \<Rightarrow> False | BoolV b \<Rightarrow> b | IntV i \<Rightarrow> i \<noteq> 0 | StrV s \<Rightarrow> s \<noteq> [] | _ \<Rightarrow> True)"

definition py_range :: "int \<Rightarrow> int list" where
  "py_range n = map int [0..<nat n]"

text \<open>
  \<open>itertools.product\<close>, as its documentation defines it: starting from one empty tuple,
  every pool extends each tuple built so far by each of its elements.
\<close>

definition itertools_product :: "'a list list \<Rightarrow> 'a list list" where
  "itertools_product pools =
     fold (\<lambda>pool result. concat (map (\<lambda>x. map (\<lambda>y. x @ [y]) pool) result)) pools [[]]"

fun unroll_array :: "node \<Rightarrow> component \<Rightarrow> int list list \<Rightarrow> error + node list" where
  "unroll_array n c [] = Inr []"
| "unroll_array n c (idxs # rest) =
     (case factory c (Some n) of
        Inl x \<Rightarrow> Inl x
      | Inr N \<Rightarrow>
          (case unroll_array n c rest of
             Inl x \<Rightarrow> Inl x
           | Inr Ns \<Rightarrow> Inr (Node (inst N) (parent N) (Some idxs) # Ns)))"

text \<open>The generator \<open>children\<close> as the list of the nodes it yields.\<close>

fun children_loop :: "node \<Rightarrow> bool \<Rightarrow> bool \<Rightarrow> component list \<Rightarrow> error + node list" where
  "children_loop n unroll skip_not_present [] = Inr []"
| "children_loop n unroll skip_not_present (child_inst # cs) =
     (if skip_not_present
         \<and> \<not> truthy (case map_of (properties child_inst) ''ispresent'' of
                       None \<Rightarrow> BoolV True
                     | Some v \<Rightarrow> v)
      then children_loop n unroll skip_not_present cs
      else
        (case (if unroll \<and> addressable (kind child_inst) \<and> comp_is_array child_inst then
                 (case comp_array_dimensions child_inst of
                    None \<Rightarrow> Inl AssertionError
                  | Some dims \<Rightarrow> unroll_array n child_inst (itertools_product (map py_range dims)))
               else (case factory child_inst (Some n) of
                       Inl x \<Rightarrow> Inl x
                     | Inr N \<Rightarrow> Inr [N])) of
           Inl x \<Rightarrow> Inl x
         | Inr ns \<Rightarrow>
             (case children_loop n unroll skip_not_present cs of
                Inl x \<Rightarrow> Inl x
              | Inr others \<Rightarrow> Inr (ns @ others))))"

definition children :: "node \<Rightarrow> bool \<Rightarrow> bool \<Rightarrow> error + node list" where
  "children n unroll skip_not_present =
     children_loop n unroll skip_not_present (comp_children (inst n))"

section \<open>Paths\<close>

text \<open>
  What the path functions take from the interpreter: the character classes of the \<open>re\<close>
  module on \<open>str\<close> patterns, which are those of the Unicode database (\<open>\w\<close> is a
  character with \<open>str.isalnum\<close> or the underscore, \<open>\d\<close> a decimal digit, of category
  Nd, which \<open>int\<close> reads by its decimal value), and the limit on the number of digits
  when an integer is read from or written to a decimal string
  (\<open>sys.get_int_max_str_digits()\<close>, 4300 unless configured, 0 for none).
\<close>

record interp =
  isalnum :: "nat \<Rightarrow> bool"
  decimal :: "nat \<Rightarrow> nat option"
  int_max_str_digits :: nat

function str_nat :: "nat \<Rightarrow> ustring" where
  "str_nat n = (if n < 10 then [48 + n] else str_nat (n div 10) @ [48 + n mod 10])"
  by pat_completeness auto
termination
  by (relation "measure id") auto

text \<open>
  The format \<open>{index:d}\<close>: the ASCII decimal digits, after a minus sign (45) when
  negative; \<open>ValueError\<close> when there are more digits than the limit (the interpreter looks
  at the limit above 640 digits only).
\<close>

definition format_d :: "interp \<Rightarrow> int \<Rightarrow> error + ustring" where
  "format_d u i =
     (let digits = str_nat (nat \<bar>i\<bar>)
      in if 640 < length digits \<and> 0 < int_max_str_digits u
            \<and> int_max_str_digits u < length digits
         then Inl ValueError
         else Inr (if i < 0 then 45 # digits else digits))"

text \<open>
  The suffix templates are functions of the index and the dimension, which may raise
  as \<open>str.format\<close> may; these are the default arguments \<open>"[{index:d}]"\<close> and \<open>"[]"\<close>.
\<close>

definition array_suffix_default :: "interp \<Rightarrow> int \<Rightarrow> int \<Rightarrow> error + ustring" where
  "array_suffix_default u index dim =
     (case format_d u index of
        Inl x \<Rightarrow> Inl x
      | Inr s \<Rightarrow> Inr (ascii ''['' @ s @ ascii '']''))"

definition empty_array_suffix_default :: "int \<Rightarrow> error + ustring" where
  "empty_array_suffix_default dim = Inr (ascii ''[]'')"

fun sequence_err :: "(error + 'a) list \<Rightarrow> error + 'a list" where
  "sequence_err [] = Inr []"
| "sequence_err (r # rs) =
     (case r of
        Inl x \<Rightarrow> Inl x
      | Inr v \<Rightarrow> (case sequence_err rs of Inl x \<Rightarrow> Inl x | Inr vs \<Rightarrow> Inr (v # vs)))"

text \<open>
  \<open>Node.get_path_segment\<close> is the instance name; \<open>AddressableNode\<close> appends one suffix
  for each dimension, or for each pair of \<open>zip(current_idx, array_dimensions)\<close>.
\<close>

definition get_path_segment ::
  "(int \<Rightarrow> int \<Rightarrow> error + ustring) \<Rightarrow> (int \<Rightarrow> error + ustring) \<Rightarrow> node
    \<Rightarrow> error + ustring" where
  "get_path_segment array_suffix empty_array_suffix n =
     (if is_AddressableNode n \<and> is_array n then
        (case array_dimensions n of
           None \<Rightarrow> Inl TypeError
         | Some dims \<Rightarrow>
             (case current_idx n of
                None \<Rightarrow>
                  (case sequence_err (map empty_array_suffix dims) of
                     Inl x \<Rightarrow> Inl x
                   | Inr sfx \<Rightarrow> Inr (inst_name (inst n) @ concat sfx))
              | Some cur \<Rightarrow>
                  (case sequence_err (map (\<lambda>(idx, dim). array_suffix idx dim) (zip cur dims)) of
                     Inl x \<Rightarrow> Inl x
                   | Inr sfx \<Rightarrow> Inr (inst_name (inst n) @ concat sfx))))
      else Inr (inst_name (inst n)))"

fun get_path_segments ::
  "(int \<Rightarrow> int \<Rightarrow> error + ustring) \<Rightarrow> (int \<Rightarrow> error + ustring) \<Rightarrow> node
    \<Rightarrow> error + ustring list" where
  "get_path_segments a ea (Node i p ci) =
     (let own = (if kind i \<noteq> KRoot then
                   (case get_path_segment a ea (Node i p ci) of
                      Inl x \<Rightarrow> Inl x
                    | Inr s \<Rightarrow> Inr [s])
                 else Inr [])
      in case p of
           None \<Rightarrow> own
         | Some pn \<Rightarrow>
             if kind (inst pn) \<noteq> KRoot then
               (case get_path_segments a ea pn of
                  Inl x \<Rightarrow> Inl x
                | Inr segs \<Rightarrow>
                    (case get_path_segment a ea (Node i p ci) of
                       Inl x \<Rightarrow> Inl x
                     | Inr s \<Rightarrow> Inr (segs @ [s])))
             else own)"

fun join :: "ustring \<Rightarrow> ustring list \<Rightarrow> ustring" where
  "join sep [] = []"
| "join sep [s] = s"
| "join sep (s # t # ts) = s @ sep @ join sep (t # ts)"



text \<open>
  The loop of \<open>get_rel_path\<close> that pops the common leading segments off the three
  deques; \<open>popleft\<close> on an empty deque is \<open>IndexError\<close>.
\<close>

fun pop_common :: "ustring list \<Rightarrow> ustring list \<Rightarrow> ustring list
    \<Rightarrow> error + (ustring list \<times> ustring list \<times> ustring list)" where
  "pop_common (r # rs) (s # ss) fmt =
     (if r = s then (case fmt of [] \<Rightarrow> Inl IndexError | f # fs \<Rightarrow> pop_common rs ss fs)
      else Inr (r # rs, s # ss, fmt))"
| "pop_common rs ss fmt = Inr (rs, ss, fmt)"

definition get_rel_path :: "interp \<Rightarrow> node \<Rightarrow> node \<Rightarrow> ustring \<Rightarrow> ustring
    \<Rightarrow> (int \<Rightarrow> int \<Rightarrow> error + ustring) \<Rightarrow> (int \<Rightarrow> error + ustring) \<Rightarrow> error + ustring" where
  "get_rel_path u self ref uplevel hier_separator a ea =
     (case get_path_segments (array_suffix_default u) empty_array_suffix_default ref of
        Inl x \<Rightarrow> Inl x
      | Inr ref_segs \<Rightarrow>
     (case get_path_segments (array_suffix_default u) empty_array_suffix_default self of
        Inl x \<Rightarrow> Inl x
      | Inr self_segs \<Rightarrow>
     (case get_path_segments a ea self of
        Inl x \<Rightarrow> Inl x
      | Inr self_segs_fmt \<Rightarrow>
     (case pop_common ref_segs self_segs self_segs_fmt of
        Inl x \<Rightarrow> Inl x
      | Inr (rs, ss, fmt) \<Rightarrow>
          Inr (join hier_separator (replicate (length rs) uplevel @ fmt))))))"

section \<open>Path lookup\<close>

text \<open>The character classes \<open>\d\<close>, \<open>[\da-fA-F]\<close> and \<open>\w\<close>, and the value \<open>int\<close> gives a digit.\<close>

definition is_digit :: "interp \<Rightarrow> nat \<Rightarrow> bool" where
  "is_digit u c = (decimal u c \<noteq> None)"

definition is_hex_digit :: "interp \<Rightarrow> nat \<Rightarrow> bool" where
  "is_hex_digit u c = (is_digit u c \<or> (97 \<le> c \<and> c \<le> 102) \<or> (65 \<le> c \<and> c \<le> 70))"

definition is_word_char :: "interp \<Rightarrow> nat \<Rightarrow> bool" where
  "is_word_char u c = (isalnum u c \<or> c = 95)"

definition digit_val :: "interp \<Rightarrow> nat \<Rightarrow> int" where
  "digit_val u c =
     (case decimal u c of
        Some v \<Rightarrow> int v
      | None \<Rightarrow> if 97 \<le> c then int c - 87 else int c - 55)"

text \<open>\<open>str.split\<close> on a one-character separator.\<close>

fun split_sep :: "nat \<Rightarrow> ustring \<Rightarrow> ustring list" where
  "split_sep sep [] = [[]]"
| "split_sep sep (c # cs) =
     (if c = sep then [] # split_sep sep cs
      else (case split_sep sep cs of [] \<Rightarrow> [[c]] | w # ws \<Rightarrow> (c # w) # ws))"

text \<open>
  The regular expression of \<open>find_by_path\<close>,
  \<^verbatim>\<open>(\w+)((?:\[(?:\d+|0[xX][\da-fA-F]+)\])*)\<close>, matched against the whole segment. The
  name is the longest run of word characters, since no bracket is one; the rest is a
  sequence of bracketed literals, and since no literal holds a closing bracket each one
  ends at the next closing bracket. \<open>match_suffix\<close> returns what \<open>re.findall\<close> collects.
  (91 and 93 are the brackets, 48 is \<open>0\<close>, 120 and 88 are \<open>x\<close> and \<open>X\<close>.)
\<close>

definition is_literal :: "interp \<Rightarrow> ustring \<Rightarrow> bool" where
  "is_literal u s =
     ((s \<noteq> [] \<and> list_all (is_digit u) s)
      \<or> (case s of
            z # x # h \<Rightarrow>
              z = 48 \<and> (x = 120 \<or> x = 88) \<and> h \<noteq> [] \<and> list_all (is_hex_digit u) h
          | _ \<Rightarrow> False))"

function match_suffix :: "interp \<Rightarrow> ustring \<Rightarrow> ustring list option" where
  "match_suffix u [] = Some []"
| "match_suffix u (c # cs) =
     (if c \<noteq> 91 then None
      else
        (let lit = takeWhile (\<lambda>x. x \<noteq> 93) cs;
             rest = dropWhile (\<lambda>x. x \<noteq> 93) cs
         in if rest = [] \<or> \<not> is_literal u lit then None
            else (case match_suffix u (tl rest) of
                    None \<Rightarrow> None
                  | Some lits \<Rightarrow> Some (lit # lits))))"
  by pat_completeness auto
termination
proof (relation "measure (\<lambda>(u, s). length s)", goal_cases)
  case 1
  show ?case by simp
next
  case (2 u c cs lit rest)
  have "length (dropWhile (\<lambda>x. x \<noteq> 93) cs) \<le> length cs"
    by (rule length_dropWhile_le)
  with 2 show ?case by (cases rest) auto
qed

text \<open>
  \<open>int(s, 0)\<close> on a literal the expression let through. Every decimal digit is read by
  its value. A decimal literal of more digits than the limit is refused (the
  interpreter looks at the limit above 640 digits only); one with a leading zero is
  refused unless it is zero; after \<open>0x\<close> the digits are hexadecimal, without limit.
\<close>

definition int_base0 :: "interp \<Rightarrow> ustring \<Rightarrow> error + int" where
  "int_base0 u s =
     (if list_all (is_digit u) s then
        (if 640 < length s \<and> 0 < int_max_str_digits u \<and> int_max_str_digits u < length s
         then Inl ValueError
         else if list_all (\<lambda>c. digit_val u c = 0) s then Inr 0
         else if digit_val u (hd s) = 0 then Inl ValueError
         else Inr (foldl (\<lambda>acc c. 10 * acc + digit_val u c) 0 s))
      else Inr (foldl (\<lambda>acc c. 16 * acc + digit_val u c) 0 (drop 2 s)))"

definition parse_segment :: "interp \<Rightarrow> ustring \<Rightarrow> error + (ustring \<times> int list)" where
  "parse_segment u pathpart =
     (let nm = takeWhile (is_word_char u) pathpart;
          array_suffix = dropWhile (is_word_char u) pathpart
      in if nm = [] then Inl ValueError
         else (case match_suffix u array_suffix of
                 None \<Rightarrow> Inl ValueError
               | Some lits \<Rightarrow>
                   (case sequence_err (map (int_base0 u) lits) of
                      Inl x \<Rightarrow> Inl x
                    | Inr idx_list \<Rightarrow> Inr (nm, idx_list))))"

text \<open>
  Modelled from the spec: \<open>get_child_by_name\<close> of \<open>Component\<close> (module \<open>component\<close>) is
  missing; it is the exact-name lookup among the immediate children, nothing when absent.
\<close>

definition comp_get_child_by_name :: "component \<Rightarrow> ustring \<Rightarrow> component option" where
  "comp_get_child_by_name c nm = find (\<lambda>ch. inst_name ch = nm) (comp_children c)"

definition get_child_by_name :: "node \<Rightarrow> ustring \<Rightarrow> error + node option" where
  "get_child_by_name n nm =
     (case comp_get_child_by_name (inst n) nm of
        None \<Rightarrow> Inr None
      | Some child_inst \<Rightarrow>
          (case factory child_inst (Some n) of Inl x \<Rightarrow> Inl x | Inr N \<Rightarrow> Inr (Some N)))"

text \<open>One round of the loop of \<open>find_by_path\<close>: \<open>Inr None\<close> is the early \<open>return None\<close>.\<close>

definition find_step :: "interp \<Rightarrow> node \<Rightarrow> ustring \<Rightarrow> error + node option" where
  "find_step u current_node pathpart =
     (if pathpart = ascii ''^'' then
        (case parent current_node of
           None \<Rightarrow> Inr (Some current_node)
         | Some p \<Rightarrow> Inr (Some p))
      else
        (case parse_segment u pathpart of
           Inl x \<Rightarrow> Inl x
         | Inr (nm, idx_list) \<Rightarrow>
             (case get_child_by_name current_node nm of
                Inl x \<Rightarrow> Inl x
              | Inr None \<Rightarrow> Inr None
              | Inr (Some child) \<Rightarrow>
                  if idx_list \<noteq> [] then
                    (if \<not> is_AddressableNode child then Inl IndexError
                     else if is_array child then
                       (case array_dimensions child of
                          None \<Rightarrow> Inl TypeError
                        | Some dims \<Rightarrow>
                            if length idx_list \<noteq> length dims then Inl IndexError
                            else if list_ex (\<lambda>(idx, dim). idx \<ge> dim) (zip idx_list dims)
                            then Inl IndexError
                            else Inr (Some (Node (inst child) (parent child) (Some idx_list))))
                     else Inl IndexError)
                  else Inr (Some child))))"

fun walk :: "interp \<Rightarrow> node \<Rightarrow> ustring list \<Rightarrow> error + node option" where
  "walk u current_node [] = Inr (Some current_node)"
| "walk u current_node (pathpart # pathparts) =
     (case find_step u current_node pathpart of
        Inl x \<Rightarrow> Inl x
      | Inr None \<Rightarrow> Inr None
      | Inr (Some nxt) \<Rightarrow> walk u nxt pathparts)"

definition find_by_path :: "interp \<Rightarrow> node \<Rightarrow> ustring \<Rightarrow> error + node option" where
  "find_by_path u n path = walk u n (split_sep 46 path)"

text \<open>
  What the lemmas below use of the Unicode database: the ASCII digits are decimal
  digits with their values, and the dot (46), the brackets (91, 93) and the caret (94)
  are neither alphanumeric nor digits.
\<close>

definition ascii_classes :: "interp \<Rightarrow> bool" where
  "ascii_classes u =
     ((\<forall>c. 48 \<le> c \<and> c \<le> 57 \<longrightarrow> decimal u c = Some (c - 48))
      \<and> (\<forall>c\<in>{46, 91, 93, 94}. \<not> isalnum u c \<and> decimal u c = None))"

section \<open>Example components\<close>

text \<open>
  A root over the address map \<open>top\<close>, which holds an empty register file, the register
  file array \<open>rf\<close> with the registers \<open>a\<close> (4 bytes at 0) and \<open>b\<close> (8 bytes at 4, one field), and
  the two-dimensional register array \<open>m\<close>.
\<close>

definition ex_arr :: component where
  "ex_arr = Component KReg (ascii ''r'') [] [] 16 True (Some [2, 3]) (Some 4)"

definition ex_reg :: component where
  "ex_reg = Component KReg (ascii ''s'') [] [] 8 False None None"

definition ex_rule :: rule where
  "ex_rule = \<lparr>bindable_to = [KReg], get_default = (\<lambda>n. Inr (IntV 32))\<rparr>"

definition ex_env :: env where
  "ex_env = \<lparr>lookup_property = (\<lambda>nm. if nm = ''regwidth'' then Some ex_rule else None),
      dedent_desc = False, dedent_text = (\<lambda>v. v), build_node_ref = (\<lambda>v n. v),
      resolve_node = (\<lambda>v n. v), roundup_pow2 = (\<lambda>x. x)\<rparr>"

definition ex_a :: component where
  "ex_a = Component KReg (ascii ''a'') [] [] 0 False None None"

definition ex_f :: component where
  "ex_f = Component KField (ascii ''f'') [] [] 0 False None None"

definition ex_b :: component where
  "ex_b = Component KReg (ascii ''b'') [ex_f] [(''regwidth'', IntV 64)] 4 False None None"

definition ex_rf :: component where
  "ex_rf = Component KRegfile (ascii ''rf'') [ex_a, ex_b] [] 16 True (Some [2]) (Some 32)"

definition ex_empty :: component where
  "ex_empty = Component KRegfile (ascii ''e'') [] [] 0 False None None"

definition ex_m :: component where
  "ex_m = Component KReg (ascii ''m'') [] [] 128 True (Some [2, 2]) (Some 4)"

definition ex_top :: component where
  "ex_top = Component KAddrmap (ascii ''top'') [ex_empty, ex_rf, ex_m] [] 256 False None None"

definition ex_root :: component where
  "ex_root = Component KRoot (ascii ''root'') [ex_top] [] 0 False None None"

definition ex_root_node :: node where
  "ex_root_node = Node ex_root None None"

definition ex_top_node :: node where
  "ex_top_node = Node ex_top (Some ex_root_node) None"

definition ex_rf_node :: "int list option \<Rightarrow> node" where
  "ex_rf_node ci = Node ex_rf (Some ex_top_node) ci"

definition ex_b_node :: "int list option \<Rightarrow> node" where
  "ex_b_node ci = Node ex_b (Some (ex_rf_node ci)) None"

text \<open>
  A fragment of the Unicode database: the ASCII letters and digits, \<open>U+00E9\<close> (a
  letter) and the Arabic-Indic digits \<open>U+0660\<close> to \<open>U+0669\<close>; the default digit limit.
\<close>

definition ex_interp :: interp where
  "ex_interp = \<lparr>
      isalnum = (\<lambda>c. (48 \<le> c \<and> c \<le> 57) \<or> (65 \<le> c \<and> c \<le> 90) \<or> (97 \<le> c \<and> c \<le> 122)
                   \<or> c = 233 \<or> (1632 \<le> c \<and> c \<le> 1641)),
      decimal = (\<lambda>c. if 48 \<le> c \<and> c \<le> 57 then Some (c - 48)
                   else if 1632 \<le> c \<and> c \<le> 1641 then Some (c - 1632) else None),
      int_max_str_digits = 4300\<rparr>"

lemmas ex_simps = ex_arr_def ex_reg_def is_AddressableNode_def addressable_def is_array_def
  array_dimensions_def array_stride_def

lemmas ex_tree = ex_a_def ex_f_def ex_b_def ex_rf_def ex_empty_def ex_m_def ex_top_def ex_root_def
  ex_root_node_def ex_top_node_def ex_rf_node_def ex_b_node_def

section \<open>Row-major flattening\<close>

lemma fold_add_sum: "fold (\<lambda>i acc. acc + g i) xs (a::int) = a + sum_list (map g xs)"
  by (induction xs arbitrary: a) (simp_all add: add.assoc)

lemma fold_mult_prod: "fold (\<lambda>j acc. acc * g j) xs (a::int) = a * prod_list (map g xs)"
  by (induction xs arbitrary: a) (simp_all add: mult.assoc)

lemma flat_sz_prod: "flat_sz dims i = (\<Prod>j = i + 1..<length dims. dims ! j)"
  unfolding flat_sz_def fold_mult_prod
  by (simp add: prod.distinct_set_conv_list [symmetric] del: upt_Suc)

lemma flat_idx_sum:
  "flat_idx cur dims = (\<Sum>k<length cur. cur ! k * (\<Prod>j = k + 1..<length dims. dims ! j))"
  unfolding flat_idx_def fold_add_sum
  by (simp add: flat_sz_prod interv_sum_list_conv_sum_set_nat atLeast0LessThan mult.commute
      del: upt_Suc)

text \<open>
  C1. For an addressable array node with dimensions \<open>S\<close>, stride \<open>st\<close> and a known
  current index \<open>I\<close> of the same length with \<open>0 \<le> I\<^sub>k < S\<^sub>k\<close>, \<open>address_offset\<close> returns and
  \<open>address_offset - raw_address_offset\<close> is \<open>st\<close> times the row-major linear index (last
  dimension fastest); for a node that is not an array \<open>address_offset\<close> is
  \<open>raw_address_offset\<close>; for an array node whose current index is unknown
  \<open>address_offset\<close> raises \<open>ValueError\<close>.
\<close>

theorem address_offset_row_major:
  "(is_AddressableNode n \<and> is_array n \<and> array_dimensions n = Some S \<and> array_stride n = Some st
      \<and> current_idx n = Some I \<and> length I = length S
      \<and> (\<forall>k<length S. 0 \<le> I ! k \<and> I ! k < S ! k)
    \<longrightarrow> (\<exists>a r. address_offset n = Inr a \<and> raw_address_offset n = Inr r
          \<and> a - r = st * (\<Sum>k<length S. I ! k * (\<Prod>j = k + 1..<length S. S ! j))))
   \<and> (is_AddressableNode n \<and> \<not> is_array n \<longrightarrow> address_offset n = raw_address_offset n)
   \<and> (is_AddressableNode n \<and> is_array n \<and> current_idx n = None
        \<longrightarrow> address_offset n = Inl ValueError)"
  by (auto simp: address_offset_def raw_address_offset_def flat_idx_sum mult.commute)

text \<open>Dimensions \<open>[2, 3]\<close>, stride 4, index \<open>[1, 2]\<close>: the extra offset is 20.\<close>

theorem address_offset_row_major_witness:
  "(\<exists>a r. address_offset (Node ex_arr None (Some [1, 2])) = Inr a
       \<and> raw_address_offset (Node ex_arr None (Some [1, 2])) = Inr r \<and> a - r = 20)
   \<and> address_offset (Node ex_reg None None) = raw_address_offset (Node ex_reg None None)
   \<and> address_offset (Node ex_arr None None) = Inl ValueError"
proof -
  have s: "(\<Sum>k<length [2, 3::int].
      [1, 2::int] ! k * (\<Prod>j = k + 1..<length [2, 3::int]. [2, 3::int] ! j)) = 5"
    by (simp add: lessThan_Suc numeral_2_eq_2)
  have h: "\<forall>k<length [2, 3::int]. 0 \<le> [1, 2::int] ! k \<and> [1, 2::int] ! k < [2, 3::int] ! k"
    by (simp add: less_Suc_eq nth_Cons')
  show ?thesis
    using address_offset_row_major [of "Node ex_arr None (Some [1, 2])" "[2, 3]" 4 "[1, 2]"]
      address_offset_row_major [of "Node ex_reg None None"]
      address_offset_row_major [of "Node ex_arr None None"] h
    unfolding s
    by (simp add: ex_simps)
qed

section \<open>Absolute addresses\<close>

lemma address_offset_known:
  "is_AddressableNode m \<Longrightarrow> array_ok m \<Longrightarrow> idx_known m \<Longrightarrow> \<exists>a. address_offset m = Inr a"
  by (auto simp: address_offset_def array_ok_def idx_known_def)

lemma address_offset_unknown:
  "is_AddressableNode m \<Longrightarrow> \<not> idx_known m \<Longrightarrow> address_offset m = Inl ValueError"
  by (auto simp: address_offset_def idx_known_def)

lemma absolute_address_known:
  "\<forall>m\<in>set (lineage n). is_AddressableNode m \<and> array_ok m \<and> idx_known m \<Longrightarrow>
   \<exists>offs. map address_offset (lineage n) = map Inr offs \<and> absolute_address n = Inr (sum_list offs)"
proof (induction n rule: lineage.induct)
  case (1 i p ci)
  let ?n = "Node i p ci"
  from 1(2) have self: "is_AddressableNode ?n" "array_ok ?n" "idx_known ?n"
    by (auto split: option.splits if_splits)
  then obtain b where b: "address_offset ?n = Inr b"
    using address_offset_known by blast
  from self have adr: "addressable (kind i)" by (simp add: is_AddressableNode_def)
  show ?case
  proof (cases p)
    case None
    with b adr show ?thesis by (auto intro: exI [of _ "[b]"])
  next
    case (Some pn)
    show ?thesis
    proof (cases "kind (inst pn) = KRoot")
      case True
      with Some b adr show ?thesis by (auto intro: exI [of _ "[b]"])
    next
      case False
      with Some 1(2) have "\<forall>m\<in>set (lineage pn). is_AddressableNode m \<and> array_ok m \<and> idx_known m"
        by simp
      with 1(1) [OF Some False] obtain offs where
        offs: "map address_offset (lineage pn) = map Inr offs"
          "absolute_address pn = Inr (sum_list offs)"
        by blast
      from Some False 1(2) have "is_AddressableNode pn"
        by (cases pn) (auto split: option.splits if_splits)
      with Some False b adr offs show ?thesis
        by (auto intro!: exI [of _ "b # offs"] simp: is_AddressableNode_def)
    qed
  qed
qed

lemma absolute_address_unknown:
  "\<forall>m\<in>set (lineage n). is_AddressableNode m \<and> array_ok m \<Longrightarrow>
   \<exists>m\<in>set (lineage n). \<not> idx_known m \<Longrightarrow> absolute_address n = Inl ValueError"
proof (induction n rule: lineage.induct)
  case (1 i p ci)
  let ?n = "Node i p ci"
  from 1(2) have self: "is_AddressableNode ?n" "array_ok ?n"
    by (auto split: option.splits if_splits)
  then have adr: "addressable (kind i)" by (simp add: is_AddressableNode_def)
  show ?case
  proof (cases p)
    case None
    with 1(3) self adr show ?thesis by (auto simp: address_offset_unknown)
  next
    case (Some pn)
    show ?thesis
    proof (cases "kind (inst pn) = KRoot")
      case True
      with Some 1(3) self adr show ?thesis by (auto simp: address_offset_unknown)
    next
      case False
      with Some 1(2) have wf: "\<forall>m\<in>set (lineage pn). is_AddressableNode m \<and> array_ok m"
        by simp
      from Some False 1(2) have pa: "is_AddressableNode pn"
        by (cases pn) (auto split: option.splits if_splits)
      show ?thesis
      proof (cases "\<exists>m\<in>set (lineage pn). \<not> idx_known m")
        case True
        from 1(1) [OF Some False wf True] Some False pa adr show ?thesis
          by (simp add: is_AddressableNode_def)
      next
        case F: False
        with wf have "\<forall>m\<in>set (lineage pn). is_AddressableNode m \<and> array_ok m \<and> idx_known m"
          by blast
        from absolute_address_known [OF this] obtain a where a: "absolute_address pn = Inr a"
          by blast
        from F Some False 1(3) have "\<not> idx_known ?n" by auto
        with self have "address_offset ?n = Inl ValueError" by (simp add: address_offset_unknown)
        with a Some False pa adr show ?thesis by (simp add: is_AddressableNode_def)
      qed
    qed
  qed
qed

text \<open>
  C2. Take an addressable node whose ancestors below the root node are addressable and
  whose arrays carry dimensions and a stride. When the current index of every array
  among the node and these ancestors is known, every \<open>address_offset\<close> along the chain
  returns and \<open>absolute_address\<close> is their sum; when the current index of one of them is
  unknown, \<open>absolute_address\<close> raises \<open>ValueError\<close>.
\<close>

theorem absolute_address_sum:
  assumes "\<forall>m\<in>set (lineage n). is_AddressableNode m \<and> array_ok m"
  shows "((\<forall>m\<in>set (lineage n). idx_known m) \<longrightarrow>
            (\<exists>offs. map address_offset (lineage n) = map Inr offs
               \<and> absolute_address n = Inr (sum_list offs)))
       \<and> ((\<exists>m\<in>set (lineage n). \<not> idx_known m) \<longrightarrow> absolute_address n = Inl ValueError)"
  using assms absolute_address_known [of n] absolute_address_unknown [of n] by blast

text \<open>
  Register \<open>b\<close> of element 1 of \<open>rf\<close>: 256 for \<open>top\<close>, 16 + 1 * 32 for \<open>rf[1]\<close>, 4 for \<open>b\<close>.
\<close>

theorem absolute_address_sum_witness:
  "map address_offset (lineage (ex_b_node (Some [1]))) = map Inr [4, 48, 256]
   \<and> absolute_address (ex_b_node (Some [1])) = Inr 308
   \<and> absolute_address (ex_b_node None) = Inl ValueError"
proof -
  have l: "lineage (ex_b_node ci) = [ex_b_node ci, ex_rf_node ci, ex_top_node]" for ci
    by (simp add: ex_tree)
  have ok: "\<forall>m\<in>set (lineage (ex_b_node ci)). is_AddressableNode m \<and> array_ok m" for ci
    unfolding l by (simp add: ex_tree ex_simps array_ok_def)
  have known: "\<forall>m\<in>set (lineage (ex_b_node (Some [1]))). idx_known m"
    unfolding l by (simp add: ex_tree ex_simps idx_known_def)
  have unknown: "\<exists>m\<in>set (lineage (ex_b_node None)). \<not> idx_known m"
    unfolding l by (simp add: ex_tree ex_simps idx_known_def)
  have offs: "map address_offset (lineage (ex_b_node (Some [1]))) = map Inr [4, 48, 256]"
    unfolding l
    by (simp add: ex_tree ex_simps address_offset_def flat_idx_def flat_sz_def)
  from absolute_address_sum [OF ok, of "Some [1]"] known obtain os where
    os: "map address_offset (lineage (ex_b_node (Some [1]))) = map Inr os"
      "absolute_address (ex_b_node (Some [1])) = Inr (sum_list os)"
    by blast
  from os(1) offs have "map (Inr :: int \<Rightarrow> error + int) os = map Inr [4, 48, 256]"
    by simp
  then have "os = [4, 48, 256]"
    by (rule map_injective) simp
  with os(2) have "absolute_address (ex_b_node (Some [1])) = Inr 308" by simp
  moreover from absolute_address_sum [OF ok, of None] unknown
  have "absolute_address (ex_b_node None) = Inl ValueError" by blast
  ultimately show ?thesis using offs by simp
qed

section \<open>The owning address map\<close>

text \<open>
  C10. On a node whose parent chain reaches the root node, \<open>owning_addrmap\<close> returns the
  node itself when it is an address map, nothing when it is the root node, and
  otherwise what it returns on the parent; it does not raise.
\<close>

theorem owning_addrmap_cases:
  "reaches_root n \<Longrightarrow>
     (is_AddrmapNode n \<longrightarrow> owning_addrmap n = Inr (Some n))
   \<and> (is_RootNode n \<longrightarrow> owning_addrmap n = Inr None)
   \<and> (\<not> is_AddrmapNode n \<and> \<not> is_RootNode n \<longrightarrow>
        (\<exists>pn. parent n = Some pn \<and> owning_addrmap n = owning_addrmap pn))
   \<and> (\<exists>r. owning_addrmap n = Inr r)"
proof (induction n rule: owning_addrmap.induct)
  case (1 i p ci)
  show ?case
  proof (cases "kind i = KAddrmap \<or> kind i = KRoot")
    case True
    then show ?thesis by (auto simp: is_AddrmapNode_def is_RootNode_def)
  next
    case False
    with 1(2) obtain pn where pn: "p = Some pn" "reaches_root pn"
      by (auto split: option.splits)
    with 1(1) [of pn] False have "\<exists>r. owning_addrmap pn = Inr r" by simp
    with False pn show ?thesis by (auto simp: is_AddrmapNode_def is_RootNode_def)
  qed
qed

theorem owning_addrmap_cases_witness:
  "owning_addrmap ex_top_node = Inr (Some ex_top_node)
   \<and> owning_addrmap ex_root_node = Inr None
   \<and> owning_addrmap (ex_b_node None) = owning_addrmap (ex_rf_node None)
   \<and> owning_addrmap (ex_rf_node None) = Inr (Some ex_top_node)"
proof -
  have r: "reaches_root ex_top_node" "reaches_root ex_root_node" "reaches_root (ex_b_node None)"
    "reaches_root (ex_rf_node None)"
    by (simp_all add: ex_tree)
  have k: "is_AddrmapNode ex_top_node" "is_RootNode ex_root_node"
    "\<not> is_AddrmapNode (ex_b_node None) \<and> \<not> is_RootNode (ex_b_node None)"
    "\<not> is_AddrmapNode (ex_rf_node None) \<and> \<not> is_RootNode (ex_rf_node None)"
    by (simp_all add: ex_tree is_AddrmapNode_def is_RootNode_def)
  have p: "parent (ex_b_node None) = Some (ex_rf_node None)"
    "parent (ex_rf_node None) = Some ex_top_node"
    by (simp_all add: ex_tree)
  from owning_addrmap_cases [OF r(1)] k(1)
  have t: "owning_addrmap ex_top_node = Inr (Some ex_top_node)" by blast
  from owning_addrmap_cases [OF r(2)] k(2)
  have o: "owning_addrmap ex_root_node = Inr None" by blast
  from owning_addrmap_cases [OF r(3)] k(3) p(1)
  have b: "owning_addrmap (ex_b_node None) = owning_addrmap (ex_rf_node None)" by auto
  from owning_addrmap_cases [OF r(4)] k(4) p(2)
  have f: "owning_addrmap (ex_rf_node None) = owning_addrmap ex_top_node" by auto
  from t o b f show ?thesis by simp
qed

section \<open>Sizes of arrays and of group nodes\<close>

lemma node_size_ex_b: "node_size ex_env (ex_b_node ci) = Inr 8"
  by (simp add: node_size.simps ex_tree get_property_def as_int_def)

lemma total_size_ex_b: "total_size ex_env (ex_b_node ci) = Inr 8"
  using node_size_ex_b [of ci] by (simp add: total_size.simps ex_tree ex_simps)

text \<open>
  C9. The \<open>total_size\<close> of an addressable array node is its stride times the element
  count of its component; the \<open>total_size\<close> of an addressable node that is not an array
  is its \<open>size\<close>.
\<close>

theorem total_size_array:
  "(is_AddressableNode n \<and> is_array n \<and> array_stride n = Some st \<and> n_elements (inst n) = Inr k
      \<longrightarrow> total_size e n = Inr (st * k))
   \<and> (is_AddressableNode n \<and> \<not> is_array n \<longrightarrow> total_size e n = node_size e n)"
  by (simp add: total_size.simps)

text \<open>
  The array \<open>rf\<close> of two elements 32 bytes apart takes 64 bytes, where the stricter
  formula would give 32 * 1 + 12.
\<close>

theorem total_size_array_witness:
  "total_size ex_env (ex_rf_node None) = Inr (32 * 2)
   \<and> total_size ex_env (ex_b_node None) = Inr 8"
  using total_size_array [of "ex_rf_node None" 32 2 ex_env]
    total_size_array [of "ex_b_node None" _ _ ex_env] node_size_ex_b [of None]
  by (simp add: ex_tree ex_simps n_elements_def)

text \<open>
  C5. The \<open>size\<close> of a register file or address map node is 0 when its component has no
  children or its last child is not addressable; otherwise the last child is wrapped in
  a fresh node below this one, and the size is that node's \<open>raw_address_offset\<close> plus
  its \<open>total_size\<close> (and raises what these raise).
\<close>

theorem group_node_size:
  "kind (inst n) = KRegfile \<or> kind (inst n) = KAddrmap \<Longrightarrow>
     (comp_children (inst n) = [] \<or> \<not> addressable (kind (last (comp_children (inst n))))
        \<longrightarrow> node_size e n = Inr 0)
   \<and> (comp_children (inst n) \<noteq> [] \<and> addressable (kind (last (comp_children (inst n))))
        \<longrightarrow> factory (last (comp_children (inst n))) (Some n)
              = Inr (Node (last (comp_children (inst n))) (Some n) None)
          \<and> node_size e n =
              (case raw_address_offset (Node (last (comp_children (inst n))) (Some n) None) of
                 Inl x \<Rightarrow> Inl x
               | Inr off \<Rightarrow>
                   (case total_size e (Node (last (comp_children (inst n))) (Some n) None) of
                      Inl x \<Rightarrow> Inl x
                    | Inr ts \<Rightarrow> Inr (off + ts))))"
  by (auto simp: node_size.simps get_group_node_size.simps factory_def addressable_def)

text \<open>Children at 0 (4 bytes) and at 4 (8 bytes): 12; no children: 0.\<close>

theorem group_node_size_witness:
  "node_size ex_env (ex_rf_node None) = Inr 12
   \<and> node_size ex_env (Node ex_empty (Some ex_top_node) None) = Inr 0"
proof -
  have l: "Node (last (comp_children (inst (ex_rf_node None)))) (Some (ex_rf_node None)) None
    = ex_b_node None"
    by (simp add: ex_tree)
  have r: "raw_address_offset (ex_b_node None) = Inr 4"
    by (simp add: raw_address_offset_def ex_tree ex_simps)
  have k: "kind (inst (ex_rf_node None)) = KRegfile" "comp_children (inst (ex_rf_node None)) \<noteq> []"
    "addressable (kind (last (comp_children (inst (ex_rf_node None)))))"
    by (simp_all add: ex_tree addressable_def)
  have k2: "kind (inst (Node ex_empty (Some ex_top_node) None)) = KRegfile"
    "comp_children (inst (Node ex_empty (Some ex_top_node) None)) = []"
    by (simp_all add: ex_tree)
  show ?thesis
    using group_node_size [of "ex_rf_node None" ex_env]
      group_node_size [of "Node ex_empty (Some ex_top_node) None" ex_env] k k2
    unfolding l by (simp add: total_size_ex_b r)
qed

section \<open>Property lookup\<close>

text \<open>What the first branch of \<open>get_property\<close> makes of an explicitly set value.\<close>

definition explicit_value :: "env \<Rightarrow> node \<Rightarrow> string \<Rightarrow> rdl_value \<Rightarrow> rdl_value" where
  "explicit_value e n prop_name v =
     (case v of
        ComponentRef r \<Rightarrow> build_node_ref e v n
      | PropertyReference r \<Rightarrow> resolve_node e v n
      | _ \<Rightarrow> if prop_name = ''desc'' \<and> dedent_desc e then dedent_text e v else v)"

definition plain_value :: "rdl_value \<Rightarrow> bool" where
  "plain_value v = (case v of ComponentRef r \<Rightarrow> False | PropertyReference r \<Rightarrow> False | _ \<Rightarrow> True)"

text \<open>
  C3, as the code has it. With or without an override default, \<open>get_property\<close> returns
  the explicitly set value when the component has one (a component reference turned
  into a node reference, a property reference bound to the node, \<open>desc\<close> dedented when
  the environment asks for it, any other value as it is). Without an explicit value,
  an override default is returned as it is, whatever the rulebook says of the name;
  without an override, the rule's default is returned when the rule binds to the kind
  of the component, and \<open>LookupError\<close> is raised when the name has no rule or the rule
  does not bind to this kind.
\<close>

theorem get_property_branches:
  "(map_of (properties (inst n)) nm = Some v \<longrightarrow>
       get_property e n nm [] = Inr (explicit_value e n nm v)
     \<and> get_property e n nm [(''default'', d)] = Inr (explicit_value e n nm v)
     \<and> (plain_value v \<and> \<not> (nm = ''desc'' \<and> dedent_desc e) \<longrightarrow> explicit_value e n nm v = v))
   \<and> (map_of (properties (inst n)) nm = None \<longrightarrow>
       get_property e n nm [(''default'', d)] = Inr d)
   \<and> (map_of (properties (inst n)) nm = None \<and> lookup_property e nm = Some r
        \<and> kind (inst n) \<in> set (bindable_to r) \<longrightarrow>
       get_property e n nm [] = get_default r n)
   \<and> (map_of (properties (inst n)) nm = None
        \<and> (lookup_property e nm = None
            \<or> (\<exists>r'. lookup_property e nm = Some r' \<and> kind (inst n) \<notin> set (bindable_to r'))) \<longrightarrow>
       get_property e n nm [] = Inl LookupError)"
  by (auto simp: get_property_def explicit_value_def plain_value_def split: rdl_value.splits)

theorem get_property_branches_witness:
  "get_property ex_env (ex_b_node None) ''regwidth'' [] = Inr (IntV 64)
   \<and> get_property ex_env (ex_b_node None) ''regwidth'' [(''default'', IntV 8)] = Inr (IntV 64)
   \<and> get_property ex_env (Node ex_a None None) ''regwidth'' [(''default'', IntV 8)] = Inr (IntV 8)
   \<and> get_property ex_env (Node ex_a None None) ''regwidth'' [] = Inr (IntV 32)
   \<and> get_property ex_env (Node ex_a None None) ''nosuch'' [] = Inl LookupError
   \<and> get_property ex_env ex_top_node ''regwidth'' [] = Inl LookupError"
proof -
  have b: "map_of (properties (inst (ex_b_node None))) ''regwidth'' = Some (IntV 64)"
    "plain_value (IntV 64)"
    by (simp_all add: ex_tree plain_value_def)
  have a: "map_of (properties (inst (Node ex_a None None))) ''regwidth'' = None"
    "map_of (properties (inst (Node ex_a None None))) ''nosuch'' = None"
    "map_of (properties (inst ex_top_node)) ''regwidth'' = None"
    by (simp_all add: ex_tree)
  have l: "lookup_property ex_env ''regwidth'' = Some ex_rule"
    "lookup_property ex_env ''nosuch'' = None"
    "kind (inst (Node ex_a None None)) \<in> set (bindable_to ex_rule)"
    "kind (inst ex_top_node) \<notin> set (bindable_to ex_rule)"
    "get_default ex_rule (Node ex_a None None) = Inr (IntV 32)"
    "\<not> dedent_desc ex_env"
    by (simp_all add: ex_env_def ex_rule_def ex_tree)
  from get_property_branches [of "ex_b_node None" "''regwidth''" "IntV 64" ex_env "IntV 8"] b l(6)
  have 1: "get_property ex_env (ex_b_node None) ''regwidth'' [] = Inr (IntV 64)"
    "get_property ex_env (ex_b_node None) ''regwidth'' [(''default'', IntV 8)] = Inr (IntV 64)"
    by simp_all
  from get_property_branches [of "Node ex_a None None" "''regwidth''" _ ex_env "IntV 8" ex_rule]
    a(1) l(1,3,5)
  have 2: "get_property ex_env (Node ex_a None None) ''regwidth'' [(''default'', IntV 8)]
      = Inr (IntV 8)"
    "get_property ex_env (Node ex_a None None) ''regwidth'' [] = Inr (IntV 32)"
    by simp_all
  from get_property_branches [of "Node ex_a None None" "''nosuch''" _ ex_env] a(2) l(2)
  have 3: "get_property ex_env (Node ex_a None None) ''nosuch'' [] = Inl LookupError"
    by simp
  from get_property_branches [of ex_top_node "''regwidth''" _ ex_env] a(3) l(1,4)
  have 4: "get_property ex_env ex_top_node ''regwidth'' [] = Inl LookupError"
    by simp
  from 1 2 3 4 show ?thesis by simp
qed

text \<open>
  The claim as stated fails: a name without a rule, asked for with an override default
  on a component that does not set it, gives the override, not \<open>LookupError\<close>.
\<close>

theorem get_property_override_counterexample:
  "lookup_property ex_env ''nosuch'' = None
   \<and> map_of (properties (inst (Node ex_a None None))) ''nosuch'' = None
   \<and> get_property ex_env (Node ex_a None None) ''nosuch'' [(''default'', IntV 7)] = Inr (IntV 7)
   \<and> get_property ex_env (Node ex_a None None) ''nosuch'' [(''default'', IntV 7)]
       \<noteq> Inl LookupError"
  by (simp add: get_property_def ex_env_def ex_tree)

section \<open>Unrolling arrays\<close>

text \<open>Whether \<open>children\<close> keeps a child when \<open>skip_not_present\<close> is set.\<close>

definition is_present :: "component \<Rightarrow> bool" where
  "is_present c =
     truthy (case map_of (properties c) ''ispresent'' of None \<Rightarrow> BoolV True | Some v \<Rightarrow> v)"

text \<open>The nodes that one child contributes to the sequence.\<close>

definition yielded :: "node \<Rightarrow> bool \<Rightarrow> component \<Rightarrow> node list" where
  "yielded n unroll c =
     (if unroll \<and> addressable (kind c) \<and> comp_is_array c then
        (case comp_array_dimensions c of
           None \<Rightarrow> []
         | Some dims \<Rightarrow>
             map (\<lambda>idxs. Node c (Some n) (Some idxs)) (itertools_product (map py_range dims)))
      else [Node c (Some n) None])"

lemma itertools_product_snoc:
  "itertools_product (pools @ [pool]) =
     concat (map (\<lambda>x. map (\<lambda>y. x @ [y]) pool) (itertools_product pools))"
  by (simp add: itertools_product_def)

lemma concat_map_product:
  "concat (map (\<lambda>x. map (f x) ys) xs) = map (\<lambda>(x, y). f x y) (List.product xs ys)"
  by (induction xs) simp_all

lemma length_itertools_product_snoc:
  "length (itertools_product (pools @ [pool])) = length (itertools_product pools) * length pool"
  by (simp add: itertools_product_snoc concat_map_product)

lemma nth_itertools_product_snoc:
  assumes "k < length (itertools_product pools) * length pool"
  shows "itertools_product (pools @ [pool]) ! k =
     itertools_product pools ! (k div length pool) @ [pool ! (k mod length pool)]"
  using assms by (simp add: itertools_product_snoc concat_map_product product_nth)

lemma flat_idx_snoc:
  assumes "length x = length dims"
  shows "flat_idx (x @ [y]) (dims @ [d]) = flat_idx x dims * d + y"
proof -
  let ?n = "length dims"
  have p: "(\<Prod>j = k + 1..<Suc ?n. (dims @ [d]) ! j) = (\<Prod>j = k + 1..<?n. dims ! j) * d"
    if "k < ?n" for k
  proof -
    from that have "(\<Prod>j = k + 1..<Suc ?n. (dims @ [d]) ! j)
        = (\<Prod>j = k + 1..<?n. (dims @ [d]) ! j) * (dims @ [d]) ! ?n"
      by (simp add: prod.atLeastLessThan_Suc)
    also have "(\<Prod>j = k + 1..<?n. (dims @ [d]) ! j) = (\<Prod>j = k + 1..<?n. dims ! j)"
      by (rule prod.cong) (simp_all add: nth_append)
    finally show ?thesis by simp
  qed
  have "flat_idx (x @ [y]) (dims @ [d])
      = (\<Sum>k<Suc ?n. (x @ [y]) ! k * (\<Prod>j = k + 1..<Suc ?n. (dims @ [d]) ! j))"
    using assms by (simp add: flat_idx_sum)
  also have "\<dots> = (\<Sum>k<?n. (x @ [y]) ! k * (\<Prod>j = k + 1..<Suc ?n. (dims @ [d]) ! j)) + y"
    using assms by (simp add: nth_append)
  also have "(\<Sum>k<?n. (x @ [y]) ! k * (\<Prod>j = k + 1..<Suc ?n. (dims @ [d]) ! j))
      = (\<Sum>k<?n. x ! k * (\<Prod>j = k + 1..<?n. dims ! j) * d)"
    using assms by (intro sum.cong) (simp_all add: nth_append p)
  also have "\<dots> = flat_idx x dims * d"
    using assms by (simp add: flat_idx_sum sum_distrib_right)
  finally show ?thesis .
qed

lemma product_ranges:
  assumes "\<forall>d\<in>set dims. 0 \<le> d"
  shows "length (itertools_product (map py_range dims)) = nat (prod_list dims)
    \<and> (\<forall>k<length (itertools_product (map py_range dims)).
          length (itertools_product (map py_range dims) ! k) = length dims
        \<and> (\<forall>j<length dims. 0 \<le> itertools_product (map py_range dims) ! k ! j
              \<and> itertools_product (map py_range dims) ! k ! j < dims ! j)
        \<and> flat_idx (itertools_product (map py_range dims) ! k) dims = int k)"
  using assms
proof (induction dims rule: rev_induct)
  case Nil
  show ?case by (simp add: itertools_product_def flat_idx_def)
next
  case (snoc d dims)
  let ?P = "itertools_product (map py_range dims)"
  let ?Q = "itertools_product (map py_range dims @ [py_range d])"
  from snoc.prems have nn: "\<forall>d\<in>set dims. 0 \<le> d" and d: "0 \<le> d" by simp_all
  note IH = snoc.IH [OF nn]
  have Q: "map py_range (dims @ [d]) = map py_range dims @ [py_range d]" by simp
  have lr: "length (py_range d) = nat d" by (simp add: py_range_def)
  have len: "length ?Q = length ?P * nat d"
    by (simp add: length_itertools_product_snoc lr)
  have "0 \<le> prod_list dims" using nn by (simp add: prod_list_nonneg)
  moreover from IH have "length ?P = nat (prod_list dims)" by blast
  ultimately have len': "length ?Q = nat (prod_list (dims @ [d]))"
    unfolding len using d by (simp add: nat_mult_distrib)
  have elems: "length (?Q ! k) = length (dims @ [d])
        \<and> (\<forall>j<length (dims @ [d]). 0 \<le> ?Q ! k ! j \<and> ?Q ! k ! j < (dims @ [d]) ! j)
        \<and> flat_idx (?Q ! k) (dims @ [d]) = int k" if k: "k < length ?Q" for k
  proof -
    from k len have k': "k < length ?P * nat d" by simp
    then have dpos: "0 < nat d" by (cases "nat d") simp_all
    let ?q = "k div nat d" and ?r = "k mod nat d"
    from k' dpos have q: "?q < length ?P"
      by (simp add: less_mult_imp_div_less)
    from dpos have r: "?r < nat d" by simp
    have nth: "?Q ! k = ?P ! ?q @ [int ?r]"
      using k' r
      by (simp add: nth_itertools_product_snoc lr) (simp add: py_range_def)
    from IH q have ih: "length (?P ! ?q) = length dims"
      "\<forall>j<length dims. 0 \<le> ?P ! ?q ! j \<and> ?P ! ?q ! j < dims ! j"
      "flat_idx (?P ! ?q) dims = int ?q"
      by simp_all
    have 1: "length (?Q ! k) = length (dims @ [d])" by (simp add: nth ih(1))
    have 2: "\<forall>j<length (dims @ [d]). 0 \<le> ?Q ! k ! j \<and> ?Q ! k ! j < (dims @ [d]) ! j"
    proof (intro allI impI)
      fix j assume "j < length (dims @ [d])"
      then consider "j < length dims" | "j = length dims" by fastforce
      then show "0 \<le> ?Q ! k ! j \<and> ?Q ! k ! j < (dims @ [d]) ! j"
      proof cases
        case 1
        with ih show ?thesis by (simp add: nth nth_append)
      next
        case 2
        with ih(1) r show ?thesis by (simp add: nth nth_append)
      qed
    qed
    have "flat_idx (?Q ! k) (dims @ [d]) = int ?q * d + int ?r"
      by (simp add: nth flat_idx_snoc ih)
    also have "\<dots> = int k"
    proof -
      obtain m where m: "d = int m" using d by (metis nat_0_le)
      have "int k = int (k div m * m + k mod m)"
        by (simp only: div_mult_mod_eq)
      also have "\<dots> = int (k div m) * int m + int (k mod m)"
        by (simp only: of_nat_add of_nat_mult)
      finally show ?thesis unfolding m nat_int by simp
    qed
    finally have 3: "flat_idx (?Q ! k) (dims @ [d]) = int k" .
    from 1 2 3 show ?thesis by blast
  qed
  from len' elems show ?case unfolding Q by blast
qed

lemma factory_ok: "kind c \<noteq> KRoot \<Longrightarrow> factory c p = Inr (Node c p None)"
  by (cases "kind c") (simp_all add: factory_def)

lemma unroll_array_ok:
  "kind c \<noteq> KRoot \<Longrightarrow>
   unroll_array n c idxss = Inr (map (\<lambda>idxs. Node c (Some n) (Some idxs)) idxss)"
  by (induction idxss) (simp_all add: factory_ok)

lemma children_loop_concat:
  assumes "\<forall>c\<in>set cs. kind c \<noteq> KRoot
      \<and> (addressable (kind c) \<and> comp_is_array c \<longrightarrow> comp_array_dimensions c \<noteq> None)"
  shows "children_loop n unroll skip cs =
     Inr (concat (map (yielded n unroll) (filter (\<lambda>c. \<not> skip \<or> is_present c) cs)))"
  using assms
proof (induction cs)
  case Nil
  show ?case by simp
next
  case (Cons c cs)
  then have IH: "children_loop n unroll skip cs =
     Inr (concat (map (yielded n unroll) (filter (\<lambda>c. \<not> skip \<or> is_present c) cs)))"
    and k: "kind c \<noteq> KRoot"
    and d: "addressable (kind c) \<and> comp_is_array c \<longrightarrow> comp_array_dimensions c \<noteq> None"
    by simp_all
  show ?case
  proof (cases "skip \<and> \<not> is_present c")
    case True
    with IH show ?thesis by (simp add: is_present_def [symmetric])
  next
    case False
    then have keep: "\<not> skip \<or> is_present c" by blast
    show ?thesis
    proof (cases "unroll \<and> addressable (kind c) \<and> comp_is_array c")
      case True
      with d obtain dims where dims: "comp_array_dimensions c = Some dims" by blast
      from True dims have yc: "yielded n unroll c =
          map (\<lambda>idxs. Node c (Some n) (Some idxs)) (itertools_product (map py_range dims))"
        by (simp add: yielded_def)
      from True dims k IH keep yc show ?thesis
        by (auto simp: is_present_def [symmetric] unroll_array_ok)
    next
      case F: False
      then have yc: "yielded n unroll c = [Node c (Some n) None]"
        by (auto simp: yielded_def)
      from F k IH keep yc show ?thesis
        by (auto simp: is_present_def [symmetric] factory_ok)
    qed
  qed
qed

text \<open>
  C6. Let every child of the component of \<open>n\<close> be of a kind \<open>_factory\<close> knows, and every
  addressable array child have dimensions, none of them negative. Then \<open>children\<close>
  returns, in the order of the children (those not present left out when
  \<open>skip_not_present\<close> is set), what each child yields. With \<open>unroll\<close> set an addressable
  array child yields one node per element: as many nodes as the product of the
  dimensions, the \<open>k\<close>-th of them over this child, below \<open>n\<close>, with a known current index
  of one in-range coordinate per dimension whose row-major linear index (last
  dimension fastest) is \<open>k\<close>. With \<open>unroll\<close> unset it yields a single node with unknown
  index, as every other child does in both cases.
\<close>

theorem children_unroll:
  assumes "\<forall>c\<in>set (comp_children (inst n)). kind c \<noteq> KRoot
      \<and> (addressable (kind c) \<and> comp_is_array c \<longrightarrow>
           (\<exists>dims. comp_array_dimensions c = Some dims \<and> (\<forall>d\<in>set dims. 0 \<le> d)))"
  shows "children n unroll skip =
       Inr (concat (map (yielded n unroll)
              (filter (\<lambda>c. \<not> skip \<or> is_present c) (comp_children (inst n)))))
     \<and> (\<forall>c\<in>set (comp_children (inst n)).
          (addressable (kind c) \<and> comp_is_array c \<longrightarrow>
             (\<exists>dims. comp_array_dimensions c = Some dims
                \<and> length (yielded n True c) = nat (prod_list dims)
                \<and> (\<forall>k<length (yielded n True c).
                      inst (yielded n True c ! k) = c
                    \<and> parent (yielded n True c ! k) = Some n
                    \<and> (\<exists>I. current_idx (yielded n True c ! k) = Some I
                          \<and> length I = length dims
                          \<and> (\<forall>j<length dims. 0 \<le> I ! j \<and> I ! j < dims ! j)
                          \<and> flat_idx I dims = int k))
                \<and> yielded n False c = [Node c (Some n) None]))
        \<and> (\<not> (addressable (kind c) \<and> comp_is_array c) \<longrightarrow>
             yielded n unroll c = [Node c (Some n) None]))"
proof (intro conjI ballI impI)
  from assms have "\<forall>c\<in>set (comp_children (inst n)). kind c \<noteq> KRoot
      \<and> (addressable (kind c) \<and> comp_is_array c \<longrightarrow> comp_array_dimensions c \<noteq> None)"
    by fastforce
  then show "children n unroll skip =
       Inr (concat (map (yielded n unroll)
              (filter (\<lambda>c. \<not> skip \<or> is_present c) (comp_children (inst n)))))"
    unfolding children_def by (rule children_loop_concat)
next
  fix c
  assume c: "c \<in> set (comp_children (inst n))" and arr: "addressable (kind c) \<and> comp_is_array c"
  with assms obtain dims where dims: "comp_array_dimensions c = Some dims" "\<forall>d\<in>set dims. 0 \<le> d"
    by blast
  let ?P = "itertools_product (map py_range dims)"
  have y: "yielded n True c = map (\<lambda>idxs. Node c (Some n) (Some idxs)) ?P"
    using arr dims by (simp add: yielded_def)
  note P = product_ranges [OF dims(2)]
  have "length (yielded n True c) = nat (prod_list dims)"
    using P by (simp add: y)
  moreover have "\<forall>k<length (yielded n True c).
        inst (yielded n True c ! k) = c
      \<and> parent (yielded n True c ! k) = Some n
      \<and> (\<exists>I. current_idx (yielded n True c ! k) = Some I
            \<and> length I = length dims
            \<and> (\<forall>j<length dims. 0 \<le> I ! j \<and> I ! j < dims ! j)
            \<and> flat_idx I dims = int k)"
    using P by (simp add: y)
  moreover have "yielded n False c = [Node c (Some n) None]"
    by (simp add: yielded_def)
  ultimately show "\<exists>dims. comp_array_dimensions c = Some dims
      \<and> length (yielded n True c) = nat (prod_list dims)
      \<and> (\<forall>k<length (yielded n True c).
            inst (yielded n True c ! k) = c
          \<and> parent (yielded n True c ! k) = Some n
          \<and> (\<exists>I. current_idx (yielded n True c ! k) = Some I
                \<and> length I = length dims
                \<and> (\<forall>j<length dims. 0 \<le> I ! j \<and> I ! j < dims ! j)
                \<and> flat_idx I dims = int k))
      \<and> yielded n False c = [Node c (Some n) None]"
    using dims(1) by blast
next
  fix c
  assume "\<not> (addressable (kind c) \<and> comp_is_array c)"
  then show "yielded n unroll c = [Node c (Some n) None]"
    by (auto simp: yielded_def)
qed

lemma product_2_2: "itertools_product (map py_range [2, 2]) = [[0, 0], [0, 1], [1, 0], [1, 1]]"
  by (simp add: itertools_product_def py_range_def upt_rec)

lemma product_2: "itertools_product (map py_range [2]) = [[0], [1]]"
  by (simp add: itertools_product_def py_range_def upt_rec)

text \<open>
  The children of \<open>top\<close>: \<open>m\<close> with dimensions \<open>[2, 2]\<close> unrolls to the indices
  (0,0), (0,1), (1,0), (1,1), in this order.
\<close>

theorem children_unroll_witness:
  "(case children ex_top_node True True of Inl x \<Rightarrow> [] | Inr ns \<Rightarrow> map (\<lambda>m. (inst_name (inst m), current_idx m)) ns)
     = [(ascii ''e'', None), (ascii ''rf'', Some [0]), (ascii ''rf'', Some [1]),
        (ascii ''m'', Some [0, 0]), (ascii ''m'', Some [0, 1]), (ascii ''m'', Some [1, 0]), (ascii ''m'', Some [1, 1])]
   \<and> (case children ex_top_node False True of Inl x \<Rightarrow> [] | Inr ns \<Rightarrow> map (\<lambda>m. (inst_name (inst m), current_idx m)) ns)
     = [(ascii ''e'', None), (ascii ''rf'', None), (ascii ''m'', None)]"
proof -
  have h: "\<forall>c\<in>set (comp_children (inst ex_top_node)). kind c \<noteq> KRoot
      \<and> (addressable (kind c) \<and> comp_is_array c \<longrightarrow>
           (\<exists>dims. comp_array_dimensions c = Some dims \<and> (\<forall>d\<in>set dims. 0 \<le> d)))"
    by (simp add: ex_tree)
  have p: "filter (\<lambda>c. \<not> True \<or> is_present c) (comp_children (inst ex_top_node))
      = [ex_empty, ex_rf, ex_m]"
    by (simp add: ex_tree is_present_def truthy_def)
  have y: "yielded ex_top_node True ex_empty = [Node ex_empty (Some ex_top_node) None]"
    "yielded ex_top_node True ex_rf = map (\<lambda>i. Node ex_rf (Some ex_top_node) (Some i)) [[0], [1]]"
    "yielded ex_top_node True ex_m
       = map (\<lambda>i. Node ex_m (Some ex_top_node) (Some i)) [[0, 0], [0, 1], [1, 0], [1, 1]]"
    "yielded ex_top_node False ex_empty = [Node ex_empty (Some ex_top_node) None]"
    "yielded ex_top_node False ex_rf = [Node ex_rf (Some ex_top_node) None]"
    "yielded ex_top_node False ex_m = [Node ex_m (Some ex_top_node) None]"
    using product_2 product_2_2
    by (simp_all add: yielded_def ex_rf_def ex_m_def ex_empty_def addressable_def)
  from children_unroll [OF h, of True True] children_unroll [OF h, of False True]
  have "children ex_top_node True True =
      Inr (concat (map (yielded ex_top_node True) [ex_empty, ex_rf, ex_m]))"
    "children ex_top_node False True =
      Inr (concat (map (yielded ex_top_node False) [ex_empty, ex_rf, ex_m]))"
    unfolding p by blast+
  then show ?thesis
    by (simp add: y) (simp add: ex_rf_def ex_m_def ex_empty_def)
qed

section \<open>The grammar of path segments\<close>

text \<open>
  A segment as the documentation words it: a name, then any number of bracketed
  decimal or hexadecimal literals.
\<close>

definition bracketed :: "ustring \<Rightarrow> ustring" where
  "bracketed lit = 91 # lit @ [93]"

definition segment_grammar :: "interp \<Rightarrow> ustring \<Rightarrow> bool" where
  "segment_grammar u s =
     (\<exists>nm lits. s = nm @ concat (map bracketed lits)
        \<and> nm \<noteq> [] \<and> list_all (is_word_char u) nm \<and> list_all (is_literal u) lits)"

text \<open>What \<open>re.fullmatch\<close> decides in \<open>parse_segment\<close>.\<close>

definition regex_match :: "interp \<Rightarrow> ustring \<Rightarrow> bool" where
  "regex_match u s =
     (takeWhile (is_word_char u) s \<noteq> []
      \<and> match_suffix u (dropWhile (is_word_char u) s) \<noteq> None)"

lemma ascii_simps: "ascii [] = []" "ascii (c # cs) = of_char c # ascii cs"
  by (simp_all add: ascii_def)


lemma is_digit_not_rbr: "ascii_classes u \<Longrightarrow> is_digit u c \<Longrightarrow> c \<noteq> 93"
  by (auto simp: is_digit_def ascii_classes_def)

lemma is_hex_digit_not_rbr: "ascii_classes u \<Longrightarrow> is_hex_digit u c \<Longrightarrow> c \<noteq> 93"
  by (auto simp: is_hex_digit_def is_digit_def ascii_classes_def)

lemma not_word_lbr: "ascii_classes u \<Longrightarrow> \<not> is_word_char u 91"
  by (simp add: is_word_char_def ascii_classes_def)

lemma not_word_caret: "ascii_classes u \<Longrightarrow> \<not> is_word_char u 94"
  by (simp add: is_word_char_def ascii_classes_def)


lemma is_literal_no_rbr:
  assumes "ascii_classes u" "is_literal u l"
  shows "\<forall>c\<in>set l. c \<noteq> 93"
  using assms(2) is_digit_not_rbr [OF assms(1)] is_hex_digit_not_rbr [OF assms(1)]
  unfolding is_literal_def
  by (auto simp: list_all_iff split: list.splits)

lemma match_suffix_bracketed:
  assumes u: "ascii_classes u"
  shows "list_all (is_literal u) lits \<Longrightarrow> match_suffix u (concat (map bracketed lits)) = Some lits"
proof (induction lits)
  case Nil
  show ?case by simp
next
  case (Cons l lits)
  then have l: "is_literal u l"
    and IH: "match_suffix u (concat (map bracketed lits)) = Some lits"
    by simp_all
  let ?rest = "concat (map bracketed lits)"
  from is_literal_no_rbr [OF u l]
  have t: "takeWhile (\<lambda>x. x \<noteq> 93) (l @ 93 # ?rest) = l"
    and d: "dropWhile (\<lambda>x. x \<noteq> 93) (l @ 93 # ?rest) = 93 # ?rest"
    by (simp_all add: takeWhile_append2 dropWhile_append2)
  have "concat (map bracketed (l # lits)) = 91 # l @ 93 # ?rest"
    by (simp add: bracketed_def)
  then show ?case using l IH by (simp add: t d)
qed

lemma match_suffix_sound:
  "match_suffix u s = Some lits \<Longrightarrow>
   s = concat (map bracketed lits) \<and> list_all (is_literal u) lits"
proof (induction u s arbitrary: lits rule: match_suffix.induct)
  case (1 u)
  then show ?case by simp
next
  case (2 u c cs)
  let ?lit = "takeWhile (\<lambda>x. x \<noteq> 93) cs"
  let ?rest = "dropWhile (\<lambda>x. x \<noteq> 93) cs"
  from 2(2) have c: "c = 91" and r: "?rest \<noteq> []" and l: "is_literal u ?lit"
    by (auto simp: Let_def split: if_splits)
  then have "match_suffix u (c # cs) =
      (case match_suffix u (tl ?rest) of None \<Rightarrow> None | Some ls \<Rightarrow> Some (?lit # ls))"
    by (auto simp: Let_def)
  with 2(2) obtain lits' where m: "match_suffix u (tl ?rest) = Some lits'"
    and lits: "lits = ?lit # lits'"
    by (cases "match_suffix u (tl ?rest)") auto
  from 2(1) [OF _ refl refl _ m] c r l
  have IH: "tl ?rest = concat (map bracketed lits')" "list_all (is_literal u) lits'"
    by simp_all
  from r have "hd ?rest = 93"
    using hd_dropWhile [of "\<lambda>x. x \<noteq> 93" cs] by simp
  with r have "?rest = 93 # tl ?rest" by (cases ?rest) simp_all
  then have "cs = ?lit @ 93 # tl ?rest"
    using takeWhile_dropWhile_id [of "\<lambda>x. x \<noteq> 93" cs] by simp
  with c IH(1) have "c # cs = 91 # ?lit @ 93 # concat (map bracketed lits')"
    by simp
  also have "\<dots> = concat (map bracketed (?lit # lits'))"
    by (simp add: bracketed_def)
  finally show ?case using IH(2) l lits by simp
qed

lemma word_prefix:
  assumes "ascii_classes u" "list_all (is_word_char u) nm" "suffix = [] \<or> hd suffix = 91"
  shows "takeWhile (is_word_char u) (nm @ suffix) = nm"
    "dropWhile (is_word_char u) (nm @ suffix) = suffix"
proof -
  from assms(3) not_word_lbr [OF assms(1)]
  have "takeWhile (is_word_char u) suffix = []" "dropWhile (is_word_char u) suffix = suffix"
    by (cases suffix; auto)+
  with assms(2) show "takeWhile (is_word_char u) (nm @ suffix) = nm"
    "dropWhile (is_word_char u) (nm @ suffix) = suffix"
    by (simp_all add: takeWhile_append2 dropWhile_append2 list_all_iff)
qed

lemma bracketed_suffix_hd:
  "concat (map bracketed lits) = [] \<or> hd (concat (map bracketed lits)) = 91"
  by (cases lits) (simp_all add: bracketed_def)

lemma grammar_iff_regex:
  assumes u: "ascii_classes u"
  shows "segment_grammar u s = regex_match u s"
proof
  assume "segment_grammar u s"
  then obtain nm lits where s: "s = nm @ concat (map bracketed lits)" and nm: "nm \<noteq> []"
    and w: "list_all (is_word_char u) nm" and l: "list_all (is_literal u) lits"
    unfolding segment_grammar_def by blast
  from word_prefix [OF u w bracketed_suffix_hd [of lits]] nm match_suffix_bracketed [OF u l]
  show "regex_match u s" by (simp add: regex_match_def s)
next
  assume r: "regex_match u s"
  then obtain lits where m: "match_suffix u (dropWhile (is_word_char u) s) = Some lits"
    and nm: "takeWhile (is_word_char u) s \<noteq> []"
    unfolding regex_match_def by blast
  from match_suffix_sound [OF m]
  have "dropWhile (is_word_char u) s = concat (map bracketed lits)"
    "list_all (is_literal u) lits"
    by simp_all
  with takeWhile_dropWhile_id [of "is_word_char u" s]
  have "s = takeWhile (is_word_char u) s @ concat (map bracketed lits)"
    "list_all (is_literal u) lits"
    by simp_all
  moreover have "list_all (is_word_char u) (takeWhile (is_word_char u) s)"
    by (simp add: list_all_iff) (meson set_takeWhileD)
  ultimately show "segment_grammar u s"
    unfolding segment_grammar_def using nm by blast
qed

lemma parse_segment_grammar:
  assumes "ascii_classes u" "nm \<noteq> []" "list_all (is_word_char u) nm"
    "list_all (is_literal u) lits"
  shows "parse_segment u (nm @ concat (map bracketed lits)) =
     (case sequence_err (map (int_base0 u) lits) of
        Inl x \<Rightarrow> Inl x
      | Inr idx_list \<Rightarrow> Inr (nm, idx_list))"
  using word_prefix [OF assms(1) assms(3) bracketed_suffix_hd [of lits]] assms(2)
    match_suffix_bracketed [OF assms(1) assms(4)]
  by (simp add: parse_segment_def)

lemma parse_segment_no_match:
  "ascii_classes u \<Longrightarrow> \<not> segment_grammar u s \<Longrightarrow> parse_segment u s = Inl ValueError"
  by (auto simp: grammar_iff_regex regex_match_def parse_segment_def Let_def split: option.splits)

lemma int_base0_error: "int_base0 u l = Inl x \<Longrightarrow> x = ValueError"
  by (auto simp: int_base0_def split: if_splits)

lemma sequence_err_int_error:
  "sequence_err (map (int_base0 u) ls) = Inl x \<Longrightarrow> x = ValueError"
proof (induction ls)
  case Nil
  then show ?case by simp
next
  case (Cons l ls)
  then show ?case
    by (cases "int_base0 u l") (auto dest: int_base0_error split: sum.splits)
qed

lemma sequence_err_refused:
  "(\<exists>l\<in>set ls. int_base0 u l = Inl ValueError) \<Longrightarrow>
   sequence_err (map (int_base0 u) ls) = Inl ValueError"
proof (induction ls)
  case Nil
  then show ?case by simp
next
  case (Cons l ls)
  show ?case
  proof (cases "int_base0 u l")
    case (Inl x)
    then show ?thesis by (auto dest: int_base0_error)
  next
    case (Inr v)
    with Cons show ?thesis by auto
  qed
qed

lemma sequence_err_values:
  "map f ls = map Inr vs \<Longrightarrow> sequence_err (map f ls) = Inr vs"
proof (induction ls arbitrary: vs)
  case Nil
  then show ?case by simp
next
  case (Cons l ls)
  then obtain v vs' where "vs = v # vs'" "f l = Inr v" "map f ls = map Inr vs'"
    by (cases vs) auto
  with Cons.IH [of vs'] show ?case by simp
qed

lemma literals_convert_or_not:
  "(\<exists>l\<in>set ls. int_base0 u l = Inl ValueError) \<or> (\<exists>vs. map (int_base0 u) ls = map Inr vs)"
proof (induction ls)
  case Nil
  show ?case by simp
next
  case (Cons l ls)
  show ?case
  proof (cases "int_base0 u l")
    case (Inl x)
    then show ?thesis by (auto dest: int_base0_error)
  next
    case (Inr v)
    from Cons show ?thesis
    proof
      assume "\<exists>l\<in>set ls. int_base0 u l = Inl ValueError"
      then show ?thesis by auto
    next
      assume "\<exists>vs. map (int_base0 u) ls = map Inr vs"
      then obtain vs where "map (int_base0 u) ls = map Inr vs" by blast
      with Inr have "map (int_base0 u) (l # ls) = map Inr (v # vs)" by simp
      then show ?thesis by blast
    qed
  qed
qed

lemma parse_segment_error: "parse_segment u s = Inl x \<Longrightarrow> x = ValueError"
  by (auto simp: parse_segment_def Let_def split: option.splits sum.splits if_splits
      dest: sequence_err_int_error)

lemma list_ex_zip_nth:
  "length xs = length ys \<Longrightarrow>
   list_ex (\<lambda>(x, y). P x y) (zip xs ys) = (\<exists>i<length xs. P (xs ! i) (ys ! i))"
  by (auto simp: list_ex_iff set_zip)

lemma find_step_index_error:
  assumes "parse_segment u seg = Inr (nm, idxs)" "get_child_by_name cur nm = Inr (Some ch)"
    "idxs \<noteq> []" "seg \<noteq> ascii ''^''"
  shows "\<not> is_AddressableNode ch \<or> \<not> is_array ch \<Longrightarrow> find_step u cur seg = Inl IndexError"
    and "is_AddressableNode ch \<Longrightarrow> is_array ch \<Longrightarrow> array_dimensions ch = Some dims \<Longrightarrow>
      length idxs \<noteq> length dims \<or> (\<exists>i<length idxs. dims ! i \<le> idxs ! i) \<Longrightarrow>
      find_step u cur seg = Inl IndexError"
proof -
  show "find_step u cur seg = Inl IndexError" if "\<not> is_AddressableNode ch \<or> \<not> is_array ch"
    using that assms by (auto simp: find_step_def)
  show "find_step u cur seg = Inl IndexError"
    if "is_AddressableNode ch" "is_array ch" "array_dimensions ch = Some dims"
      "length idxs \<noteq> length dims \<or> (\<exists>i<length idxs. dims ! i \<le> idxs ! i)"
  proof (cases "length idxs = length dims")
    case True
    with that(4) have "list_ex (\<lambda>(idx, dim). dim \<le> idx) (zip idxs dims)"
      by (simp add: list_ex_zip_nth)
    with True that(1-3) assms show ?thesis by (simp add: find_step_def)
  next
    case False
    with that(1-3) assms show ?thesis by (simp add: find_step_def)
  qed
qed

lemma not_grammar_caret: "ascii_classes u \<Longrightarrow> \<not> segment_grammar u (ascii ''^'')"
  using not_word_caret [of u]
  by (simp add: grammar_iff_regex regex_match_def ascii_def)

lemma int_base0_refuses:
  "(int_base0 u l = Inl ValueError) =
     (list_all (is_digit u) l
      \<and> ((640 < length l \<and> 0 < int_max_str_digits u \<and> int_max_str_digits u < length l)
         \<or> (digit_val u (hd l) = 0 \<and> \<not> list_all (\<lambda>c. digit_val u c = 0) l)))"
  by (auto simp: int_base0_def)

text \<open>
  C8. \<open>find_by_path\<close> runs \<open>walk\<close> over the segments between the dots; \<open>walk u cur (seg # rest)\<close>
  is the loop when it reaches \<open>seg\<close> at the node \<open>cur\<close>. A segment other than \<open>^\<close> that
  is not a name followed by bracketed decimal or hexadecimal literals raises
  \<open>ValueError\<close>. For a segment that is: either \<open>int(s, 0)\<close> refuses one of its literals
  or every literal has a value; a refused literal raises \<open>ValueError\<close> whatever the
  children are, and the refused literals are the decimal ones with a superfluous
  leading zero or with more digits than the limit of the interpreter. When every literal
  has a value, a name that is not among the children returns \<open>None\<close>, and indices on a
  child that is not addressable or not an array, an index count other than the number
  of dimensions, and an index at or above its dimension raise \<open>IndexError\<close>. A \<open>^\<close> at a
  node without parent stays there.
\<close>

theorem find_by_path_errors:
  "ascii_classes u \<Longrightarrow>
   find_by_path u n path = walk u n (split_sep 46 path)
   \<and> (seg \<noteq> ascii ''^'' \<and> \<not> segment_grammar u seg \<longrightarrow> walk u cur (seg # rest) = Inl ValueError)
   \<and> (nm \<noteq> [] \<and> list_all (is_word_char u) nm \<and> list_all (is_literal u) lits \<longrightarrow>
        ((\<exists>l\<in>set lits. int_base0 u l = Inl ValueError)
           \<or> (\<exists>idxs. map (int_base0 u) lits = map Inr idxs))
      \<and> ((\<exists>l\<in>set lits. int_base0 u l = Inl ValueError) \<longrightarrow>
           walk u cur ((nm @ concat (map bracketed lits)) # rest) = Inl ValueError)
      \<and> (\<forall>idxs. map (int_base0 u) lits = map Inr idxs \<longrightarrow>
           (comp_get_child_by_name (inst cur) nm = None \<longrightarrow>
              walk u cur ((nm @ concat (map bracketed lits)) # rest) = Inr None)
         \<and> (\<forall>ch. get_child_by_name cur nm = Inr (Some ch) \<and> idxs \<noteq> [] \<longrightarrow>
               (\<not> is_AddressableNode ch \<or> \<not> is_array ch \<longrightarrow>
                  walk u cur ((nm @ concat (map bracketed lits)) # rest) = Inl IndexError)
             \<and> (\<forall>dims. is_AddressableNode ch \<and> is_array ch \<and> array_dimensions ch = Some dims
                   \<and> (length idxs \<noteq> length dims \<or> (\<exists>i<length idxs. dims ! i \<le> idxs ! i)) \<longrightarrow>
                  walk u cur ((nm @ concat (map bracketed lits)) # rest) = Inl IndexError))))
   \<and> ((int_base0 u l = Inl ValueError) =
        (list_all (is_digit u) l
         \<and> ((640 < length l \<and> 0 < int_max_str_digits u \<and> int_max_str_digits u < length l)
            \<or> (digit_val u (hd l) = 0 \<and> \<not> list_all (\<lambda>c. digit_val u c = 0) l))))
   \<and> (parent cur = None \<longrightarrow> walk u cur (ascii ''^'' # rest) = walk u cur rest)"
proof (intro conjI impI allI)
  show "find_by_path u n path = walk u n (split_sep 46 path)"
    by (simp add: find_by_path_def)
next
  assume "ascii_classes u" "seg \<noteq> ascii ''^'' \<and> \<not> segment_grammar u seg"
  then show "walk u cur (seg # rest) = Inl ValueError"
    by (simp add: find_step_def parse_segment_no_match)
next
  show "(\<exists>l\<in>set lits. int_base0 u l = Inl ValueError)
      \<or> (\<exists>idxs. map (int_base0 u) lits = map Inr idxs)"
    by (rule literals_convert_or_not)
next
  let ?seg = "nm @ concat (map bracketed lits)"
  assume u: "ascii_classes u"
    and a: "nm \<noteq> [] \<and> list_all (is_word_char u) nm \<and> list_all (is_literal u) lits"
  then have p: "parse_segment u ?seg =
     (case sequence_err (map (int_base0 u) lits) of
        Inl x \<Rightarrow> Inl x
      | Inr idx_list \<Rightarrow> Inr (nm, idx_list))"
    by (simp add: parse_segment_grammar)
  from a have "segment_grammar u ?seg" unfolding segment_grammar_def by blast
  with not_grammar_caret [OF u] have c: "?seg \<noteq> ascii ''^''" by auto
  {
    assume "\<exists>l\<in>set lits. int_base0 u l = Inl ValueError"
    then have "sequence_err (map (int_base0 u) lits) = Inl ValueError"
      by (rule sequence_err_refused)
    with p c show "walk u cur (?seg # rest) = Inl ValueError"
      by (simp add: find_step_def)
  }
  fix idxs
  assume "map (int_base0 u) lits = map Inr idxs"
  then have "sequence_err (map (int_base0 u) lits) = Inr idxs"
    by (rule sequence_err_values)
  with p have q: "parse_segment u ?seg = Inr (nm, idxs)" by simp
  {
    assume "comp_get_child_by_name (inst cur) nm = None"
    with q c show "walk u cur (?seg # rest) = Inr None"
      by (simp add: find_step_def get_child_by_name_def)
  }
  fix ch
  assume ch: "get_child_by_name cur nm = Inr (Some ch) \<and> idxs \<noteq> []"
  {
    assume "\<not> is_AddressableNode ch \<or> \<not> is_array ch"
    with find_step_index_error(1) [OF q _ _ c] ch
    show "walk u cur (?seg # rest) = Inl IndexError" by simp
  }
  fix dims
  assume "is_AddressableNode ch \<and> is_array ch \<and> array_dimensions ch = Some dims
    \<and> (length idxs \<noteq> length dims \<or> (\<exists>i<length idxs. dims ! i \<le> idxs ! i))"
  with find_step_index_error(2) [OF q _ _ c, of cur ch dims] ch
  show "walk u cur (?seg # rest) = Inl IndexError" by simp
next
  show "(int_base0 u l = Inl ValueError) =
        (list_all (is_digit u) l
         \<and> ((640 < length l \<and> 0 < int_max_str_digits u \<and> int_max_str_digits u < length l)
            \<or> (digit_val u (hd l) = 0 \<and> \<not> list_all (\<lambda>c. digit_val u c = 0) l)))"
    by (rule int_base0_refuses)
next
  assume "parent cur = None"
  then show "walk u cur (ascii ''^'' # rest) = walk u cur rest"
    by (simp add: find_step_def)
qed

lemma ex_classes: "ascii_classes ex_interp"
  by (simp add: ascii_classes_def ex_interp_def)

lemma ex_step_top: "find_step ex_interp ex_root_node (ascii ''top'') = Inr (Some ex_top_node)"
  by code_simp

lemma ex_steps:
  "find_step ex_interp ex_top_node (ascii ''rf'') = Inr (Some (ex_rf_node None))"
  "find_step ex_interp (ex_rf_node None) (ascii ''b'') = Inr (Some (ex_b_node None))"
  by code_simp+

lemma ex_children:
  "comp_get_child_by_name (inst ex_top_node) (ascii ''zz'') = None"
  "comp_get_child_by_name (inst ex_top_node) [233] = None"
  "get_child_by_name ex_top_node (ascii ''e'') = Inr (Some (Node ex_empty (Some ex_top_node) None))"
  "get_child_by_name ex_top_node (ascii ''m'') = Inr (Some (Node ex_m (Some ex_top_node) None))"
  "get_child_by_name (ex_b_node None) (ascii ''f'') = Inr (Some (Node ex_f (Some (ex_b_node None)) None))"
  by code_simp+

lemma ex_names:
  "list_all (is_word_char ex_interp) (ascii ''zz'')"
  "list_all (is_word_char ex_interp) [233]"
  "list_all (is_word_char ex_interp) (ascii ''e'')"
  "list_all (is_word_char ex_interp) (ascii ''f'')"
  "list_all (is_word_char ex_interp) (ascii ''m'')"
  by code_simp+

lemma ex_literals:
  "list_all (is_literal ex_interp) [ascii ''0'']"
  "list_all (is_literal ex_interp) [ascii ''1'']"
  "list_all (is_literal ex_interp) [ascii ''1'', ascii ''0x2'']"
  "list_all (is_literal ex_interp) [ascii ''1'', [1634]]"
  "list_all (is_literal ex_interp) [ascii ''01'', ascii ''0'']"
  by code_simp+

lemma ex_values:
  "map (int_base0 ex_interp) [ascii ''0''] = map Inr [0]"
  "map (int_base0 ex_interp) [ascii ''1''] = map Inr [1]"
  "map (int_base0 ex_interp) [ascii ''1'', ascii ''0x2''] = map Inr [1, 2]"
  "map (int_base0 ex_interp) [ascii ''1'', [1634]] = map Inr [1, 2]"
  "int_base0 ex_interp (ascii ''01'') = Inl ValueError"
  by code_simp+

lemma ex_regex: "\<not> regex_match ex_interp (ascii ''m[]'')" "ascii ''m[]'' \<noteq> ascii ''^''"
  by code_simp+

lemma ex_splits:
  "split_sep 46 (ascii ''top.m[]'') = [ascii ''top'', ascii ''m[]'']"
  "split_sep 46 (ascii ''top.zz'') = [ascii ''top'', ascii ''zz'']"
  "split_sep 46 (ascii ''top.e[0]'') = [ascii ''top'', ascii ''e[0]'']"
  "split_sep 46 (ascii ''top.rf.b.f[0]'') = [ascii ''top'', ascii ''rf'', ascii ''b'', ascii ''f[0]'']"
  "split_sep 46 (ascii ''top.m[1]'') = [ascii ''top'', ascii ''m[1]'']"
  "split_sep 46 (ascii ''top.m[1][0x2]'') = [ascii ''top'', ascii ''m[1][0x2]'']"
  "split_sep 46 (ascii ''^'') = [ascii ''^'']"
  "split_sep 46 (ascii ''top.m[01][0]'') = [ascii ''top'', ascii ''m[01][0]'']"
  "split_sep 46 (ascii ''top.'' @ [233]) = [ascii ''top'', [233]]"
  "split_sep 46 (ascii ''top.m[1]['' @ 1634 # ascii '']'') = [ascii ''top'', ascii ''m[1]['' @ 1634 # ascii '']'']"
  by (simp_all add: ascii_def)

lemma ex_segs:
  "ascii ''zz'' @ concat (map bracketed []) = ascii ''zz''"
  "[233] @ concat (map bracketed []) = [233]"
  "ascii ''e'' @ concat (map bracketed [ascii ''0'']) = ascii ''e[0]''"
  "ascii ''f'' @ concat (map bracketed [ascii ''0'']) = ascii ''f[0]''"
  "ascii ''m'' @ concat (map bracketed [ascii ''1'']) = ascii ''m[1]''"
  "ascii ''m'' @ concat (map bracketed [ascii ''1'', ascii ''0x2'']) = ascii ''m[1][0x2]''"
  "ascii ''m'' @ concat (map bracketed [ascii ''1'', [1634]]) = ascii ''m[1]['' @ 1634 # ascii '']''"
  "ascii ''m'' @ concat (map bracketed [ascii ''01'', ascii ''0'']) = ascii ''m[01][0]''"
  by (simp_all add: ascii_def bracketed_def)

lemma ascii_nonempty: "ascii (c # cs) \<noteq> []"
  by (simp add: ascii_def)

text \<open>
  On the example tree: an empty bracket pair, an unknown name, indices on a register
  file that is not an array and on a field, one index for two dimensions, an index
  equal to its dimension, \<open>^\<close> at the root, a leading zero, a name that is one letter
  outside ASCII, and an index written with an Arabic-Indic digit.
\<close>

theorem find_by_path_errors_witness:
  "find_by_path ex_interp ex_root_node (ascii ''top.m[]'') = Inl ValueError
   \<and> find_by_path ex_interp ex_root_node (ascii ''top.zz'') = Inr None
   \<and> find_by_path ex_interp ex_root_node (ascii ''top.e[0]'') = Inl IndexError
   \<and> find_by_path ex_interp ex_root_node (ascii ''top.rf.b.f[0]'') = Inl IndexError
   \<and> find_by_path ex_interp ex_root_node (ascii ''top.m[1]'') = Inl IndexError
   \<and> find_by_path ex_interp ex_root_node (ascii ''top.m[1][0x2]'') = Inl IndexError
   \<and> find_by_path ex_interp ex_root_node (ascii ''^'') = Inr (Some ex_root_node)
   \<and> find_by_path ex_interp ex_root_node (ascii ''top.m[01][0]'') = Inl ValueError
   \<and> find_by_path ex_interp ex_root_node (ascii ''top.'' @ [233]) = Inr None
   \<and> find_by_path ex_interp ex_root_node (ascii ''top.m[1]['' @ 1634 # ascii '']'')
       = Inl IndexError"
proof -
  note T = find_by_path_errors [OF ex_classes]
  have g: "\<not> segment_grammar ex_interp (ascii ''m[]'')"
    using ex_regex(1) by (simp add: grammar_iff_regex [OF ex_classes])
  have 1: "find_by_path ex_interp ex_root_node (ascii ''top.m[]'') = Inl ValueError"
    using T [where n = ex_root_node and path = "ascii ''top.m[]''" and seg = "ascii ''m[]''"
        and cur = ex_top_node and rest = "[]" and nm = "[]" and lits = "[]" and l = "[]"]
      g ex_regex(2)
    by (simp add: ex_splits ex_step_top)
  have w: "ascii ''zz'' \<noteq> [] \<and> list_all (is_word_char ex_interp) (ascii ''zz'')
        \<and> list_all (is_literal ex_interp) []"
    "[233] \<noteq> [] \<and> list_all (is_word_char ex_interp) [233] \<and> list_all (is_literal ex_interp) []"
    "ascii ''e'' \<noteq> [] \<and> list_all (is_word_char ex_interp) (ascii ''e'')
        \<and> list_all (is_literal ex_interp) [ascii ''0'']"
    "ascii ''f'' \<noteq> [] \<and> list_all (is_word_char ex_interp) (ascii ''f'')
        \<and> list_all (is_literal ex_interp) [ascii ''0'']"
    "ascii ''m'' \<noteq> [] \<and> list_all (is_word_char ex_interp) (ascii ''m'')
        \<and> list_all (is_literal ex_interp) [ascii ''1'']"
    "ascii ''m'' \<noteq> [] \<and> list_all (is_word_char ex_interp) (ascii ''m'')
        \<and> list_all (is_literal ex_interp) [ascii ''1'', ascii ''0x2'']"
    "ascii ''m'' \<noteq> [] \<and> list_all (is_word_char ex_interp) (ascii ''m'')
        \<and> list_all (is_literal ex_interp) [ascii ''1'', [1634]]"
    "ascii ''m'' \<noteq> [] \<and> list_all (is_word_char ex_interp) (ascii ''m'')
        \<and> list_all (is_literal ex_interp) [ascii ''01'', ascii ''0'']"
    using ex_names ex_literals by (simp_all add: ascii_nonempty)
  have v0: "map (int_base0 ex_interp) [] = map Inr []" by simp
  have ne: "[0::int] \<noteq> []" "[1::int] \<noteq> []" "[1, 2::int] \<noteq> []" by simp_all
  have e: "get_child_by_name ex_top_node (ascii ''e'')
        = Inr (Some (Node ex_empty (Some ex_top_node) None)) \<and> [0::int] \<noteq> []"
    "\<not> is_AddressableNode (Node ex_empty (Some ex_top_node) None)
      \<or> \<not> is_array (Node ex_empty (Some ex_top_node) None)"
    using ex_children by (simp_all add: ex_tree ex_simps)
  have f: "get_child_by_name (ex_b_node None) (ascii ''f'')
        = Inr (Some (Node ex_f (Some (ex_b_node None)) None)) \<and> [0::int] \<noteq> []"
    "\<not> is_AddressableNode (Node ex_f (Some (ex_b_node None)) None)
      \<or> \<not> is_array (Node ex_f (Some (ex_b_node None)) None)"
    using ex_children by (simp_all add: ex_tree ex_simps)
  have m1: "get_child_by_name ex_top_node (ascii ''m'')
        = Inr (Some (Node ex_m (Some ex_top_node) None)) \<and> [1::int] \<noteq> []"
    "is_AddressableNode (Node ex_m (Some ex_top_node) None)
      \<and> is_array (Node ex_m (Some ex_top_node) None)
      \<and> array_dimensions (Node ex_m (Some ex_top_node) None) = Some [2, 2]
      \<and> (length [1::int] \<noteq> length [2, 2::int] \<or> (\<exists>i<length [1::int]. [2, 2] ! i \<le> [1::int] ! i))"
    using ex_children by (simp_all add: ex_tree ex_simps)
  have b: "\<exists>i<length [1, 2::int]. [2, 2::int] ! i \<le> [1, 2] ! i"
    by (rule exI [of _ 1]) simp
  have m2: "get_child_by_name ex_top_node (ascii ''m'')
        = Inr (Some (Node ex_m (Some ex_top_node) None)) \<and> [1, 2::int] \<noteq> []"
    "is_AddressableNode (Node ex_m (Some ex_top_node) None)
      \<and> is_array (Node ex_m (Some ex_top_node) None)
      \<and> array_dimensions (Node ex_m (Some ex_top_node) None) = Some [2, 2]
      \<and> (length [1, 2::int] \<noteq> length [2, 2::int]
         \<or> (\<exists>i<length [1, 2::int]. [2, 2] ! i \<le> [1, 2::int] ! i))"
    using ex_children b by (simp_all add: ex_tree ex_simps)
  have z: "\<exists>l\<in>set [ascii ''01'', ascii ''0'']. int_base0 ex_interp l = Inl ValueError"
    using ex_values(5) by simp
  have "walk ex_interp (ex_top_node) ((ascii ''zz'' @ concat (map bracketed ([]))) # []) = Inr None"
    using T [where seg = "[]" and cur = "ex_top_node" and rest = "[]" and nm = "ascii ''zz''"
        and lits = "[]" and l = "[]"]
      w(1) v0 ex_children(1)
    by blast
  from this [unfolded ex_segs] have 2: "find_by_path ex_interp ex_root_node (ascii ''top.zz'') = Inr None"
    by (simp add: find_by_path_def ex_splits ex_step_top)
  have "walk ex_interp (ex_top_node) ((ascii ''e'' @ concat (map bracketed ([ascii ''0'']))) # []) = Inl IndexError"
    using T [where seg = "[]" and cur = "ex_top_node" and rest = "[]" and nm = "ascii ''e''"
        and lits = "[ascii ''0'']" and l = "[]"]
      w(3) ex_values(1) e
    by blast
  from this [unfolded ex_segs] have 3: "find_by_path ex_interp ex_root_node (ascii ''top.e[0]'') = Inl IndexError"
    by (simp add: find_by_path_def ex_splits ex_step_top)
  have "walk ex_interp (ex_b_node None) ((ascii ''f'' @ concat (map bracketed ([ascii ''0'']))) # []) = Inl IndexError"
    using T [where seg = "[]" and cur = "ex_b_node None" and rest = "[]" and nm = "ascii ''f''"
        and lits = "[ascii ''0'']" and l = "[]"]
      w(4) ex_values(1) f
    by blast
  from this [unfolded ex_segs] have 4: "find_by_path ex_interp ex_root_node (ascii ''top.rf.b.f[0]'') = Inl IndexError"
    by (simp add: find_by_path_def ex_splits ex_step_top ex_steps)
  have "walk ex_interp (ex_top_node) ((ascii ''m'' @ concat (map bracketed ([ascii ''1'']))) # []) = Inl IndexError"
    using T [where seg = "[]" and cur = "ex_top_node" and rest = "[]" and nm = "ascii ''m''"
        and lits = "[ascii ''1'']" and l = "[]"]
      w(5) ex_values(2) m1
    by blast
  from this [unfolded ex_segs] have 5: "find_by_path ex_interp ex_root_node (ascii ''top.m[1]'') = Inl IndexError"
    by (simp add: find_by_path_def ex_splits ex_step_top)
  have "walk ex_interp (ex_top_node) ((ascii ''m'' @ concat (map bracketed ([ascii ''1'', ascii ''0x2'']))) # []) = Inl IndexError"
    using T [where seg = "[]" and cur = "ex_top_node" and rest = "[]" and nm = "ascii ''m''"
        and lits = "[ascii ''1'', ascii ''0x2'']" and l = "[]"]
      w(6) ex_values(3) m2
    by blast
  from this [unfolded ex_segs] have 6: "find_by_path ex_interp ex_root_node (ascii ''top.m[1][0x2]'') = Inl IndexError"
    by (simp add: find_by_path_def ex_splits ex_step_top)
  have 7: "find_by_path ex_interp ex_root_node (ascii ''^'') = Inr (Some ex_root_node)"
    using T [where n = ex_root_node and path = "ascii ''^''" and seg = "[]"
        and cur = ex_root_node and rest = "[]" and nm = "[]" and lits = "[]" and l = "[]"]
    by (simp add: ex_splits ex_root_node_def)
  have "walk ex_interp (ex_top_node) ((ascii ''m'' @ concat (map bracketed ([ascii ''01'', ascii ''0'']))) # []) = Inl ValueError"
    using T [where seg = "[]" and cur = "ex_top_node" and rest = "[]" and nm = "ascii ''m''"
        and lits = "[ascii ''01'', ascii ''0'']" and l = "[]"]
      w(8) z
    by blast
  from this [unfolded ex_segs] have 8: "find_by_path ex_interp ex_root_node (ascii ''top.m[01][0]'') = Inl ValueError"
    by (simp add: find_by_path_def ex_splits ex_step_top)
  have "walk ex_interp (ex_top_node) (([233] @ concat (map bracketed ([]))) # []) = Inr None"
    using T [where seg = "[]" and cur = "ex_top_node" and rest = "[]" and nm = "[233]"
        and lits = "[]" and l = "[]"]
      w(2) v0 ex_children(2)
    by blast
  from this [unfolded ex_segs] have 9: "find_by_path ex_interp ex_root_node (ascii ''top.'' @ [233]) = Inr None"
    by (simp add: find_by_path_def ex_splits ex_step_top)
  have "walk ex_interp (ex_top_node) ((ascii ''m'' @ concat (map bracketed ([ascii ''1'', [1634]]))) # []) = Inl IndexError"
    using T [where seg = "[]" and cur = "ex_top_node" and rest = "[]" and nm = "ascii ''m''"
        and lits = "[ascii ''1'', [1634]]" and l = "[]"]
      w(7) ex_values(4) m2
    by blast
  from this [unfolded ex_segs] have 10: "find_by_path ex_interp ex_root_node (ascii ''top.m[1]['' @ 1634 # ascii '']'') = Inl IndexError"
    by (simp add: find_by_path_def ex_splits ex_step_top)
  from 1 2 3 4 5 6 7 8 9 10 show ?thesis by blast
qed

text \<open>
  The sentence of the claim fails where a literal has a leading zero: \<open>zz[01]\<close> has the
  form of a segment and names no child of \<open>top\<close>, \<open>e[01]\<close> puts an index on a child that
  is not an array, and both raise \<open>ValueError\<close>, before the child is looked up.
\<close>

theorem find_by_path_leading_zero_counterexample:
  "segment_grammar ex_interp (ascii ''zz[01]'')
   \<and> comp_get_child_by_name (inst ex_top_node) (ascii ''zz'') = None
   \<and> find_by_path ex_interp ex_root_node (ascii ''top.zz[01]'') = Inl ValueError
   \<and> segment_grammar ex_interp (ascii ''e[01]'')
   \<and> get_child_by_name ex_top_node (ascii ''e'')
       = Inr (Some (Node ex_empty (Some ex_top_node) None))
   \<and> \<not> is_array (Node ex_empty (Some ex_top_node) None)
   \<and> find_by_path ex_interp ex_root_node (ascii ''top.e[01]'') = Inl ValueError"
proof -
  have "regex_match ex_interp (ascii ''zz[01]'')" "regex_match ex_interp (ascii ''e[01]'')"
    by code_simp+
  then have "segment_grammar ex_interp (ascii ''zz[01]'')"
    "segment_grammar ex_interp (ascii ''e[01]'')"
    by (simp_all add: grammar_iff_regex [OF ex_classes])
  moreover have "comp_get_child_by_name (inst ex_top_node) (ascii ''zz'') = None"
    "get_child_by_name ex_top_node (ascii ''e'')
       = Inr (Some (Node ex_empty (Some ex_top_node) None))"
    "\<not> is_array (Node ex_empty (Some ex_top_node) None)"
    "find_by_path ex_interp ex_root_node (ascii ''top.zz[01]'') = Inl ValueError"
    "find_by_path ex_interp ex_root_node (ascii ''top.e[01]'') = Inl ValueError"
    by code_simp+
  ultimately show ?thesis by blast
qed

section \<open>Nodes of a tree and their paths\<close>






declare str_nat.simps [simp del]














lemma sequence_err_map_Inr: "sequence_err (map (\<lambda>x. Inr (f x)) xs) = Inr (map f xs)"
  by (induction xs) simp_all

lemma map_zip_fst:
  "length xs = length ys \<Longrightarrow> map (\<lambda>(x, y). f x) (zip xs ys) = map f xs"
  by (induction xs ys rule: list_induct2) simp_all











lemma get_path_segments_root:
  "is_RootNode R \<Longrightarrow> parent R = None \<Longrightarrow> get_path_segments a ea R = Inr []"
  by (cases R) (simp add: is_RootNode_def)





end
